theory Spec2Isabelle
  imports Main "HOL-Library.Word"
begin

unbundle bit_operations_syntax

section \<open>Values shared by the store and the middleware\<close>

text \<open>
  Go's \<open>error\<close> is an interface value whose zero value is \<open>nil\<close>; the model keeps
  \<open>nil\<close> as a constructor so that every \<open>err != nil\<close> test of the source reads the
  same here. \<open>Errorf\<close> is \<open>fmt.Errorf\<close> without \<open>%w\<close>, \<open>Wrapf m e\<close> is
  \<open>fmt.Errorf(m + ": %w", e)\<close>. \<open>RedisNil\<close> is go-redis's \<open>redis.Nil\<close>;
  \<open>ClientError\<close> is any other error a client call reports.
\<close>

datatype error =
    nil
  | RedisNil
  | ClientError string
  | ErrSyntax
  | ErrRange
  | ErrBase
  | ErrBitSize
  | Errorf string
  | Wrapf string error

text \<open>\<open>errors.Is\<close>: the target is looked for along the chain of wrapped errors.\<close>

fun errors_Is :: "error \<Rightarrow> error \<Rightarrow> bool" where
  "errors_Is (Wrapf m e) target = (Wrapf m e = target \<or> errors_Is e target)"
| "errors_Is e target = (e = target)"

type_synonym uint64 = "64 word"

section \<open>strconv: FormatUint and ParseUint\<close>

text \<open>
  The store writes its counters with \<open>strconv.FormatUint(x, 10)\<close> and reads them back
  with \<open>strconv.ParseUint(v, 0, 64)\<close>. Both belong to Go's standard library; they are
  modelled here on bytes, with the loop of \<open>ParseUint\<close> and its overflow tests written
  out on 64-bit arithmetic.
\<close>

definition byte :: "char \<Rightarrow> nat" where
  "byte c = of_char c"

text \<open>\<open>lower(c) = c | ('x' - 'X')\<close>\<close>

definition lower :: "char \<Rightarrow> nat" where
  "lower c = byte c OR 32"

definition maxUint64 :: nat where
  "maxUint64 = 2 ^ 64 - 1"

definition digit_char :: "nat \<Rightarrow> char" where
  "digit_char d = ''0123456789abcdefghijklmnopqrstuvwxyz'' ! d"

function fmt_digits :: "nat \<Rightarrow> nat \<Rightarrow> string" where
  "fmt_digits b n =
     (if b < 2 \<or> n < b then [digit_char n]
      else fmt_digits b (n div b) @ [digit_char (n mod b)])"
  by pat_completeness auto
termination
  by (relation "measure snd") auto

declare fmt_digits.simps [simp del]

text \<open>\<open>FormatUint\<close> for the bases 2 to 36; the store and the middleware use base 10.\<close>

definition FormatUint :: "uint64 \<Rightarrow> nat \<Rightarrow> string" where
  "FormatUint i base = fmt_digits base (unat i)"

text \<open>The value of one byte as a digit, before the test against the base.\<close>

definition digit_of :: "char \<Rightarrow> nat option" where
  "digit_of c =
     (if 48 \<le> byte c \<and> byte c \<le> 57 then Some (byte c - 48)
      else if 97 \<le> lower c \<and> lower c \<le> 122 then Some (lower c - 97 + 10)
      else None)"

text \<open>
  The digit loop of \<open>ParseUint\<close>. \<open>Inl\<close> is an early return (value and error),
  \<open>Inr\<close> the accumulated number and whether an underscore was seen.
\<close>

fun parse_digits ::
  "nat \<Rightarrow> bool \<Rightarrow> nat \<Rightarrow> nat \<Rightarrow> string \<Rightarrow> nat \<Rightarrow> bool \<Rightarrow> (nat \<times> error) + (nat \<times> bool)" where
  "parse_digits base base0 cutoff maxVal [] n underscores = Inr (n, underscores)"
| "parse_digits base base0 cutoff maxVal (c # cs) n underscores =
     (if c = CHR ''_'' \<and> base0 then parse_digits base base0 cutoff maxVal cs n True
      else case digit_of c of
        None \<Rightarrow> Inl (0, ErrSyntax)
      | Some d \<Rightarrow>
          if d \<ge> base then Inl (0, ErrSyntax)
          else if n \<ge> cutoff then Inl (maxVal, ErrRange)
          else
            let n' = (n * base) mod 2 ^ 64;
                n1 = (n' + d) mod 2 ^ 64
            in if n1 < n' \<or> n1 > maxVal then Inl (maxVal, ErrRange)
               else parse_digits base base0 cutoff maxVal cs n1 underscores)"

text \<open>
  \<open>underscoreOK\<close>: underscores may only separate digits, or a base prefix from a digit.
  \<open>saw\<close> is the last kind of byte seen, written as in the library: \<open>^\<close> start,
  \<open>0\<close> digit or prefix, \<open>_\<close> underscore, \<open>!\<close> anything else.
\<close>

fun underscore_scan :: "bool \<Rightarrow> char \<Rightarrow> string \<Rightarrow> bool" where
  "underscore_scan hex saw [] = (saw \<noteq> CHR ''_'')"
| "underscore_scan hex saw (c # cs) =
     (if (48 \<le> byte c \<and> byte c \<le> 57) \<or> (hex \<and> 97 \<le> lower c \<and> lower c \<le> 102)
      then underscore_scan hex (CHR ''0'') cs
      else if c = CHR ''_''
      then (if saw \<noteq> CHR ''0'' then False else underscore_scan hex (CHR ''_'') cs)
      else if saw = CHR ''_'' then False
      else underscore_scan hex (CHR ''!'') cs)"

definition underscoreOK :: "string \<Rightarrow> bool" where
  "underscoreOK s0 =
     (let s = (if length s0 \<ge> 1 \<and> (hd s0 = CHR ''-'' \<or> hd s0 = CHR ''+'') then tl s0 else s0)
      in if length s \<ge> 2 \<and> s ! 0 = CHR ''0''
            \<and> (lower (s ! 1) = 98 \<or> lower (s ! 1) = 111 \<or> lower (s ! 1) = 120)
         then underscore_scan (lower (s ! 1) = 120) (CHR ''0'') (drop 2 s)
         else underscore_scan False (CHR ''^'') s)"

text \<open>
  The base and the digits left after the prefix, for \<open>base = 0\<close>: \<open>0b\<close>, \<open>0o\<close>,
  \<open>0x\<close> (when at least one more byte follows), a bare leading \<open>0\<close> for octal, and
  decimal otherwise. The argument is not empty.
\<close>

definition base_prefix :: "string \<Rightarrow> nat \<times> string" where
  "base_prefix s =
     (if s ! 0 = CHR ''0'' then
        (if length s \<ge> 3 \<and> lower (s ! 1) = 98 then (2, drop 2 s)
         else if length s \<ge> 3 \<and> lower (s ! 1) = 111 then (8, drop 2 s)
         else if length s \<ge> 3 \<and> lower (s ! 1) = 120 then (16, drop 2 s)
         else (8, drop 1 s))
      else (10, s))"

definition ParseUint :: "string \<Rightarrow> nat \<Rightarrow> nat \<Rightarrow> uint64 \<times> error" where
  "ParseUint s0 base bitSize =
     (if s0 = [] then (0, ErrSyntax)
      else if \<not> (2 \<le> base \<and> base \<le> 36) \<and> base \<noteq> 0 then (0, ErrBase)
      else if bitSize > 64 then (0, ErrBitSize)
      else
        let base0 = (base = 0);
            (b, s) = (if base0 then base_prefix s0 else (base, s0));
            bits = (if bitSize = 0 then 64 else bitSize);
            cutoff = maxUint64 div b + 1;
            maxVal = 2 ^ bits - 1
        in case parse_digits b base0 cutoff maxVal s 0 False of
             Inl (v, e) \<Rightarrow> (of_nat v, e)
           | Inr (n, underscores) \<Rightarrow>
               if underscores \<and> \<not> underscoreOK s0 then (0, ErrSyntax)
               else (of_nat n, nil))"

section \<open>The Redis client\<close>

text \<open>
  The store reaches Redis only through the \<open>RedisClient\<close> interface. The client is
  modelled by the state it answers from: hashes (the buckets), sets (the tag sets) and
  the expiry last given to each key. A value read from a hash is an \<open>interface{}\<close>:
  \<open>INil\<close> for an absent field, \<open>IString\<close> for what HSET stored, \<open>IOther\<close> for a
  value of any other dynamic type. Each kind of call can fail: the four \<open>_err\<close> fields
  hold the error the client reports for it (\<open>nil\<close>: the call succeeds). The model
  records the duration handed to \<open>Expire\<close> as it is, and keeps hashes and sets apart.
\<close>

datatype iface = INil | IString string | IOther

record redis =
  hashes :: "string \<Rightarrow> (string \<Rightarrow> iface option) option"
  sets :: "string \<Rightarrow> string list option"
  ttl :: "string \<Rightarrow> int option"
  hmget_err :: error
  hset_err :: error
  smembers_err :: error
  exec_err :: error

datatype cmd =
    SAdd string string
  | Expire string int
  | HSet string "string list"
  | Del "string list"

fun set_fields :: "(string \<Rightarrow> iface option) \<Rightarrow> string list \<Rightarrow> (string \<Rightarrow> iface option)" where
  "set_fields h (f # v # rest) = set_fields (h(f \<mapsto> IString v)) rest"
| "set_fields h _ = h"

definition hash_of :: "redis \<Rightarrow> string \<Rightarrow> (string \<Rightarrow> iface option)" where
  "hash_of c key = (case hashes c key of None \<Rightarrow> Map.empty | Some h \<Rightarrow> h)"

definition members_of :: "redis \<Rightarrow> string \<Rightarrow> string list" where
  "members_of c key = (case sets c key of None \<Rightarrow> [] | Some ms \<Rightarrow> ms)"

definition exists_key :: "redis \<Rightarrow> string \<Rightarrow> bool" where
  "exists_key c key = (hashes c key \<noteq> None \<or> sets c key \<noteq> None)"

fun apply_cmd :: "redis \<Rightarrow> cmd \<Rightarrow> redis" where
  "apply_cmd c (SAdd key member) =
     c\<lparr>sets := (sets c)(key \<mapsto> List.insert member (members_of c key))\<rparr>"
| "apply_cmd c (Expire key d) =
     (if exists_key c key then c\<lparr>ttl := (ttl c)(key \<mapsto> d)\<rparr> else c)"
| "apply_cmd c (HSet key flds) =
     c\<lparr>hashes := (hashes c)(key \<mapsto> set_fields (hash_of c key) flds)\<rparr>"
| "apply_cmd c (Del keys) =
     c\<lparr>hashes := hashes c |` (- set keys),
       sets := sets c |` (- set keys),
       ttl := ttl c |` (- set keys)\<rparr>"

text \<open>\<open>client.HMGet(ctx, key, fields...).Result()\<close>: one value per requested field.\<close>

definition HMGet :: "redis \<Rightarrow> string \<Rightarrow> string list \<Rightarrow> iface list \<times> error" where
  "HMGet c key flds =
     (if hmget_err c \<noteq> nil then ([], hmget_err c)
      else (map (\<lambda>f. case hash_of c key f of None \<Rightarrow> INil | Some v \<Rightarrow> v) flds, nil))"

text \<open>\<open>client.HSet(ctx, key, fields).Err()\<close>\<close>

definition HSet_direct :: "redis \<Rightarrow> string \<Rightarrow> string list \<Rightarrow> error \<times> redis" where
  "HSet_direct c key flds =
     (if hset_err c \<noteq> nil then (hset_err c, c) else (nil, apply_cmd c (HSet key flds)))"

text \<open>\<open>client.SMembers(ctx, key).Result()\<close>\<close>

definition SMembers :: "redis \<Rightarrow> string \<Rightarrow> string list \<times> error" where
  "SMembers c key =
     (if smembers_err c \<noteq> nil then ([], smembers_err c) else (members_of c key, nil))"

text \<open>
  A transaction pipeline is the queue of its commands. In go-redis a command method
  called on a pipeline (\<open>pipe.SAdd\<close>, \<open>pipe.Del\<close>, ...) builds the command, hands it to
  the pipeline's own \<open>Process\<close>, which appends it to the queue, and returns it; the
  store then passes the returned command to \<open>pipe.Process\<close> once more. \<open>Exec\<close> runs
  the queue as one MULTI/EXEC transaction: all of it, or nothing when it fails. Whatever
  makes the server refuse the transaction (a \<open>DEL\<close> without keys, for one) is a failure
  of \<open>Exec\<close>, the \<open>exec_err\<close> of the client; a command that is applied here has been
  accepted.
\<close>

type_synonym pipeline = "cmd list"

definition TxPipeline :: pipeline where
  "TxPipeline = []"

definition Process :: "pipeline \<Rightarrow> cmd \<Rightarrow> pipeline" where
  "Process pipe command = pipe @ [command]"

definition pipe_cmd :: "pipeline \<Rightarrow> cmd \<Rightarrow> pipeline \<times> cmd" where
  "pipe_cmd pipe command = (Process pipe command, command)"

definition Exec :: "redis \<Rightarrow> pipeline \<Rightarrow> error \<times> redis" where
  "Exec c pipe = (if exec_err c \<noteq> nil then (exec_err c, c) else (nil, foldl apply_cmd c pipe))"

section \<open>The Redis store\<close>

definition redisActualPointsFieldName :: string where
  "redisActualPointsFieldName = ''actual_points''"

definition redisResetTimeFieldName :: string where
  "redisResetTimeFieldName = ''reset_time''"

definition redisMaxPointsFieldName :: string where
  "redisMaxPointsFieldName = ''max_points''"

definition defaultRedisPrefix :: string where
  "defaultRedisPrefix = ''rate_limiter_redistore_''"

definition defaultRedisTag :: string where
  "defaultRedisTag = ''goratelimit''"

definition defaultRedisTagPrefix :: string where
  "defaultRedisTagPrefix = ''tags:''"

text \<open>\<open>Interval\<close> is a \<open>time.Duration\<close>, a number of nanoseconds.\<close>

record RedisConfig =
  Tags :: "string list"
  TagsPrefix :: string
  Prefix :: string
  Interval :: int
  Points :: uint64

text \<open>The store without its client, whose state is passed along separately.\<close>

record redisStore =
  tags :: "string list"
  tagPrefix :: string
  prefix :: string
  maxPoints :: uint64
  interval :: int

datatype panic = IndexOutOfRange nat nat

text \<open>
  \<open>for idx, tag := range cfg.Tags { tags[idx] = tagPrefix + tag }\<close>: an assignment
  to an index at or beyond the length of the slice panics.
\<close>

fun prefix_tags :: "string \<Rightarrow> string list \<Rightarrow> nat \<Rightarrow> string list \<Rightarrow> panic + string list" where
  "prefix_tags tagPrefix' [] idx tags' = Inr tags'"
| "prefix_tags tagPrefix' (tag # rest) idx tags' =
     (if idx < length tags'
      then prefix_tags tagPrefix' rest (Suc idx) (tags'[idx := tagPrefix' @ tag])
      else Inl (IndexOutOfRange idx (length tags')))"

text \<open>
  \<open>tags'\<close> starts as \<open>make([]string, 0, len(cfg.Tags))\<close>: length 0, whatever the
  capacity. The primed names are the local variables of the source.
\<close>

definition NewRedisStore :: "RedisConfig \<Rightarrow> panic + redisStore" where
  "NewRedisStore cfg =
     (let tags' = ([] :: string list);
          prefix' = (if Prefix cfg = [] then defaultRedisPrefix else Prefix cfg);
          tagPrefix' = (if TagsPrefix cfg = [] then defaultRedisTagPrefix else TagsPrefix cfg);
          tags'' = (if length (Tags cfg) = 0 then Inr (tags' @ [tagPrefix' @ defaultRedisTag])
                    else prefix_tags tagPrefix' (Tags cfg) 0 tags')
      in case tags'' of
           Inl p \<Rightarrow> Inl p
         | Inr ts \<Rightarrow>
             Inr \<lparr>tags = ts, tagPrefix = tagPrefix', prefix = prefix',
                  maxPoints = Points cfg, interval = Interval cfg\<rparr>)"

text \<open>A decision: \<open>(limit, remaining, resetTime, ok, err)\<close>.\<close>

type_synonym decision = "uint64 \<times> uint64 \<times> uint64 \<times> bool \<times> error"

definition update :: "string \<Rightarrow> string list \<Rightarrow> redis \<Rightarrow> error \<times> redis" where
  "update key flds c =
     (let (err, c') = HSet_direct c key flds
      in if err \<noteq> nil then (Wrapf ''redis hset'' err, c') else (nil, c'))"

fun tag_loop :: "string list \<Rightarrow> string \<Rightarrow> int \<Rightarrow> pipeline \<Rightarrow> pipeline" where
  "tag_loop [] key expiration pipe = pipe"
| "tag_loop (tag # rest) key expiration pipe =
     (let (pipe, command) = pipe_cmd pipe (SAdd tag key);
          pipe = Process pipe command;
          (pipe, command) = pipe_cmd pipe (Expire tag expiration);
          pipe = Process pipe command
      in tag_loop rest key expiration pipe)"

definition hset :: "redisStore \<Rightarrow> string \<Rightarrow> string list \<Rightarrow> int \<Rightarrow> redis \<Rightarrow> error \<times> redis" where
  "hset r key flds expiration c =
     (let pipe = TxPipeline;
          pipe = tag_loop (tags r) key expiration pipe;
          (pipe, command) = pipe_cmd pipe (HSet key flds);
          pipe = Process pipe command;
          (pipe, command) = pipe_cmd pipe (Expire key expiration);
          pipe = Process pipe command;
          (err, c') = Exec c pipe
      in if err \<noteq> nil then (Wrapf ''redis pipeline exec'' err, c') else (nil, c'))"

text \<open>
  \<open>now\<close> is the reading of the clock, \<open>time.Now().UnixNano()\<close>; the reset time is
  \<open>uint64(time.Now().Add(r.interval).UnixNano())\<close>.
\<close>

definition newBucket :: "redisStore \<Rightarrow> int \<Rightarrow> string \<Rightarrow> redis \<Rightarrow> decision \<times> redis" where
  "newBucket r now key c =
     (let actual = maxPoints r;
          resetTime = (word_of_int (now + interval r) :: uint64);
          (err, c') = hset r key
                        [redisMaxPointsFieldName, FormatUint (maxPoints r) 10,
                         redisActualPointsFieldName, FormatUint actual 10,
                         redisResetTimeFieldName, FormatUint resetTime 10]
                        (interval r) c
      in if err \<noteq> nil then ((0, 0, 0, False, Wrapf ''redis hmset'' err), c')
         else ((maxPoints r, maxPoints r, resetTime, True, nil), c'))"

text \<open>\<open>v, ok = x.(string)\<close>\<close>

definition assert_string :: "iface \<Rightarrow> string \<times> bool" where
  "assert_string x = (case x of IString s \<Rightarrow> (s, True) | _ \<Rightarrow> ([], False))"

text \<open>
  \<open>take\<close>, branch by branch. \<open>err\<close> is the variable assigned from \<open>HMGet\<close>; the
  three tests after the calls of \<open>ParseUint\<close> read it, as the source does, while the
  error of the parse is \<open>pErr\<close>. A successful \<open>HMGet\<close> answers one value for each of
  the three fields asked for, so the indexes 0, 1 and 2 are in range.
\<close>

definition take :: "redisStore \<Rightarrow> int \<Rightarrow> string \<Rightarrow> redis \<Rightarrow> decision \<times> redis" where
  "take r now key c =
     (let prefixedKey = prefix r @ key;
          (vals, err) = HMGet c prefixedKey
                          [redisMaxPointsFieldName, redisActualPointsFieldName, redisResetTimeFieldName]
      in if err \<noteq> nil then
           (if errors_Is err RedisNil then newBucket r now prefixedKey c
            else ((0, 0, 0, False, Wrapf ''HMGet'' err), c))
         else if vals ! 0 = INil then newBucket r now prefixedKey c
         else
           let (v, ok) = assert_string (vals ! 0) in
           if \<not> ok then ((0, 0, 0, False, Errorf ''redis mismatch types''), c)
           else
             let (l, pErr) = ParseUint v 0 64 in
             if err \<noteq> nil then ((0, 0, 0, False, Wrapf ''parse uint'' pErr), c)
             else
               let limit = l;
                   (v, ok) = assert_string (vals ! 1) in
               if \<not> ok then ((0, 0, 0, False, Errorf ''redis mismatch types''), c)
               else
                 let (a, pErr) = ParseUint v 0 64 in
                 if err \<noteq> nil then ((0, 0, 0, False, Wrapf ''parse uint'' pErr), c)
                 else
                   let remaining = a;
                       (v, ok) = assert_string (vals ! 2) in
                   if \<not> ok then ((0, 0, 0, False, Errorf ''redis mismatch types''), c)
                   else
                     let (t, pErr) = ParseUint v 0 64 in
                     if err \<noteq> nil then ((0, 0, 0, False, Wrapf ''parse uint'' pErr), c)
                     else
                       let resetTimeUint = t in
                       if remaining > 0 then
                         let remaining = remaining - 1;
                             (err, c') = update prefixedKey
                                           [redisActualPointsFieldName, FormatUint remaining 10] c
                         in if err \<noteq> nil then ((0, 0, 0, True, Wrapf ''redis hmset'' err), c')
                            else ((limit, remaining, resetTimeUint, True, nil), c')
                       else ((limit, remaining, resetTimeUint, False, nil), c))"

definition Take :: "redisStore \<Rightarrow> int \<Rightarrow> string \<Rightarrow> redis \<Rightarrow> decision \<times> redis" where
  "Take r now key c =
     (let ((limit, remaining, resetTime, ok, err), c') = take r now key c
      in if err \<noteq> nil then ((0, 0, 0, False, Wrapf ''take'' err), c')
         else ((limit, remaining, resetTime, ok, nil), c'))"

definition reset :: "redisStore \<Rightarrow> redis \<Rightarrow> error \<times> redis" where
  "reset r c =
     (let pipe = TxPipeline in
      if length (tags r) = 0 then (Errorf ''tags not set'', c)
      else
        let (keys, err) = SMembers c (tags r ! 0) in
        if err \<noteq> nil then (Wrapf ''redis smembers'' err, c)
        else
          let (pipe, command) = pipe_cmd pipe (Del keys);
              pipe = Process pipe command;
              (pipe, command) = pipe_cmd pipe (Del (tags r));
              pipe = Process pipe command;
              (err, c') = Exec c pipe
          in if err \<noteq> nil then (Wrapf ''redis pipeline exec'' err, c') else (nil, c'))"

definition Reset :: "redisStore \<Rightarrow> redis \<Rightarrow> error \<times> redis" where
  "Reset r c =
     (let (err, c') = reset r c
      in if err \<noteq> nil then (Wrapf ''reset'' err, c') else (nil, c'))"

section \<open>Observing the store\<close>

text \<open>
  What \<open>take\<close> treats as "no bucket": \<open>HMGet\<close> reports \<open>redis.Nil\<close>, or it
  succeeds and the first value (the limit) is nil.
\<close>

definition no_bucket :: "redisStore \<Rightarrow> string \<Rightarrow> redis \<Rightarrow> bool" where
  "no_bucket r key c =
     (let (vals, err) = HMGet c (prefix r @ key)
                          [redisMaxPointsFieldName, redisActualPointsFieldName, redisResetTimeFieldName]
      in errors_Is err RedisNil \<or> (err = nil \<and> vals ! 0 = INil))"

text \<open>
  The bucket stored under a key, decoded: \<open>(limit, remaining, resetTime)\<close> when the three
  fields are strings that \<open>ParseUint\<close> accepts without error, \<open>None\<close> otherwise.
\<close>

definition decode_field :: "iface option \<Rightarrow> uint64 option" where
  "decode_field x =
     (case x of
        Some (IString s) \<Rightarrow> (case ParseUint s 0 64 of (v, e) \<Rightarrow> if e = nil then Some v else None)
      | _ \<Rightarrow> None)"

definition bucket_of :: "redis \<Rightarrow> string \<Rightarrow> (uint64 \<times> uint64 \<times> uint64) option" where
  "bucket_of c pk =
     (case decode_field (hash_of c pk redisMaxPointsFieldName) of
        None \<Rightarrow> None
      | Some l \<Rightarrow>
         (case decode_field (hash_of c pk redisActualPointsFieldName) of
            None \<Rightarrow> None
          | Some a \<Rightarrow>
             (case decode_field (hash_of c pk redisResetTimeFieldName) of
                None \<Rightarrow> None
              | Some t \<Rightarrow> Some (l, a, t))))"

text \<open>
  The invariant of one key: the key holds a well-formed bucket with
  \<open>remaining \<le> limit\<close>, or its limit field is absent (the next \<open>take\<close> creates it).
\<close>

definition bucket_inv :: "redis \<Rightarrow> string \<Rightarrow> bool" where
  "bucket_inv c pk =
     (case bucket_of c pk of
        Some (l, a, t) \<Rightarrow> a \<le> l
      | None \<Rightarrow> (case hash_of c pk redisMaxPointsFieldName of None \<Rightarrow> True | Some v \<Rightarrow> v = INil))"

text \<open>A decision whose remaining count does not exceed its limit.\<close>

definition within_limit :: "decision \<Rightarrow> bool" where
  "within_limit d = (case d of (limit, remaining, resetTime, ok, err) \<Rightarrow> remaining \<le> limit)"

text \<open>Successive calls of \<open>Take\<close> for one key, one per clock reading.\<close>

fun take_seq :: "redisStore \<Rightarrow> string \<Rightarrow> int list \<Rightarrow> redis \<Rightarrow> decision list \<times> redis" where
  "take_seq r key [] c = ([], c)"
| "take_seq r key (now # nows) c =
     (let (d, c') = Take r now key c;
          (ds, c'') = take_seq r key nows c'
      in (d # ds, c''))"



section \<open>Overlapping calls of take\<close>

text \<open>
  \<open>take\<close> talks to the client twice: it reads with \<open>HMGet\<close>, and later writes with
  \<open>HSet\<close> (an existing bucket) or with the transaction of \<open>hset\<close> (a new one). Nothing
  in the store holds the key between the two. \<open>take_read\<close> is \<open>take\<close> up to the point
  where the write is due, \<open>take_write\<close> is the rest; a call that returns without
  writing is \<open>Finished\<close> after its read.
\<close>

datatype pending =
    Finished decision
  | Create
  | Decrement uint64 uint64 uint64

definition take_read :: "redisStore \<Rightarrow> string \<Rightarrow> redis \<Rightarrow> pending" where
  "take_read r key c =
     (let prefixedKey = prefix r @ key;
          (vals, err) = HMGet c prefixedKey
                          [redisMaxPointsFieldName, redisActualPointsFieldName, redisResetTimeFieldName]
      in if err \<noteq> nil then
           (if errors_Is err RedisNil then Create
            else Finished (0, 0, 0, False, Wrapf ''HMGet'' err))
         else if vals ! 0 = INil then Create
         else
           let (v, ok) = assert_string (vals ! 0) in
           if \<not> ok then Finished (0, 0, 0, False, Errorf ''redis mismatch types'')
           else
             let (l, pErr) = ParseUint v 0 64 in
             if err \<noteq> nil then Finished (0, 0, 0, False, Wrapf ''parse uint'' pErr)
             else
               let limit = l;
                   (v, ok) = assert_string (vals ! 1) in
               if \<not> ok then Finished (0, 0, 0, False, Errorf ''redis mismatch types'')
               else
                 let (a, pErr) = ParseUint v 0 64 in
                 if err \<noteq> nil then Finished (0, 0, 0, False, Wrapf ''parse uint'' pErr)
                 else
                   let remaining = a;
                       (v, ok) = assert_string (vals ! 2) in
                   if \<not> ok then Finished (0, 0, 0, False, Errorf ''redis mismatch types'')
                   else
                     let (t, pErr) = ParseUint v 0 64 in
                     if err \<noteq> nil then Finished (0, 0, 0, False, Wrapf ''parse uint'' pErr)
                     else
                       let resetTimeUint = t in
                       if remaining > 0 then Decrement limit (remaining - 1) resetTimeUint
                       else Finished (limit, remaining, resetTimeUint, False, nil))"

definition take_write :: "redisStore \<Rightarrow> int \<Rightarrow> string \<Rightarrow> pending \<Rightarrow> redis \<Rightarrow> decision \<times> redis" where
  "take_write r now key p c =
     (let prefixedKey = prefix r @ key in
      case p of
        Finished d \<Rightarrow> (d, c)
      | Create \<Rightarrow> newBucket r now prefixedKey c
      | Decrement limit remaining resetTimeUint \<Rightarrow>
          let (err, c') = update prefixedKey
                            [redisActualPointsFieldName, FormatUint remaining 10] c
          in if err \<noteq> nil then ((0, 0, 0, True, Wrapf ''redis hmset'' err), c')
             else ((limit, remaining, resetTimeUint, True, nil), c'))"

text \<open>
  Calls in flight on one client. A schedule names, step by step, the call that makes its
  next client round trip.
\<close>

datatype call = Idle | Reading pending | Returned decision

definition step_call :: "redisStore \<Rightarrow> int \<Rightarrow> string \<Rightarrow> call \<Rightarrow> redis \<Rightarrow> call \<times> redis" where
  "step_call r now key cl c =
     (case cl of
        Idle \<Rightarrow> (Reading (take_read r key c), c)
      | Reading p \<Rightarrow> (let (d, c') = take_write r now key p c in (Returned d, c'))
      | Returned d \<Rightarrow> (Returned d, c))"

fun run_schedule ::
  "redisStore \<Rightarrow> int \<Rightarrow> string \<Rightarrow> nat list \<Rightarrow> call list \<times> redis \<Rightarrow> call list \<times> redis" where
  "run_schedule r now key [] st = st"
| "run_schedule r now key (i # sched) (calls, c) =
     (if i < length calls
      then (let (cl, c') = step_call r now key (calls ! i) c
            in run_schedule r now key sched (calls[i := cl], c'))
      else run_schedule r now key sched (calls, c))"


section \<open>The HTTP middleware\<close>

definition HeaderRateLimitLimit :: string where
  "HeaderRateLimitLimit = ''X-RateLimit-Limit''"

definition HeaderRateLimitRemaining :: string where
  "HeaderRateLimitRemaining = ''X-RateLimit-Remaining''"

definition HeaderRateLimitReset :: string where
  "HeaderRateLimitReset = ''X-RateLimit-Reset''"

definition HeaderRetryAfter :: string where
  "HeaderRetryAfter = ''Retry-After''"

text \<open>\<open>time.RFC1123\<close>\<close>

definition defaultDateFormat :: string where
  "defaultDateFormat = ''Mon, 02 Jan 2006 15:04:05 MST''"

definition StatusInternalServerError :: nat where
  "StatusInternalServerError = 500"

definition StatusTooManyRequests :: nat where
  "StatusTooManyRequests = 429"

text \<open>\<open>skipper\<close> is a \<open>func() bool\<close> that may be nil.\<close>

record Options =
  dateFormat :: string
  skipper :: "(unit \<Rightarrow> bool) option"

definition WithDateFormat :: "string \<Rightarrow> Options \<Rightarrow> Options" where
  "WithDateFormat format' = (\<lambda>options. options\<lparr>dateFormat := format'\<rparr>)"

definition WithSkipper :: "(unit \<Rightarrow> bool) option \<Rightarrow> Options \<Rightarrow> Options" where
  "WithSkipper skipper' = (\<lambda>options. options\<lparr>skipper := skipper'\<rparr>)"

text \<open>
  The \<open>http.ResponseWriter\<close> as the middleware uses it: the header map, and the status
  codes passed to \<open>WriteHeader\<close>, in order.
\<close>

record response =
  headers :: "string \<Rightarrow> string option"
  written :: "nat list"

definition Header_Set :: "response \<Rightarrow> string \<Rightarrow> string \<Rightarrow> response" where
  "Header_Set w k v = w\<lparr>headers := (headers w)(k \<mapsto> v)\<rparr>"

definition WriteHeader :: "response \<Rightarrow> nat \<Rightarrow> response" where
  "WriteHeader w code = w\<lparr>written := written w @ [code]\<rparr>"

text \<open>
  One request passing through the middleware: the response writer, the state of the
  store, and two records of what was called: the keys given to \<open>s.Take\<close> and the number
  of calls of \<open>next.ServeHTTP\<close>. The wrapped handler acts on the response writer.
\<close>

record 's exchange =
  resp :: response
  store :: 's
  take_calls :: "string list"
  next_calls :: nat

definition ServeHTTP :: "('r \<Rightarrow> response \<Rightarrow> response) \<Rightarrow> 'r \<Rightarrow> 's exchange \<Rightarrow> 's exchange" where
  "ServeHTTP handler r x = x\<lparr>resp := handler r (resp x), next_calls := Suc (next_calls x)\<rparr>"

text \<open>
  \<open>Format layout ns\<close> stands for \<open>time.Unix(0, ns).UTC().Format(layout)\<close>;
  \<open>s\<close> is the \<open>Take\<close> of the store, \<open>keyFunc\<close> may be nil.
\<close>

definition LimiterMiddleware ::
  "(string \<Rightarrow> int \<Rightarrow> string) \<Rightarrow> (string \<Rightarrow> 's \<Rightarrow> decision \<times> 's) \<Rightarrow> ('r \<Rightarrow> string \<times> error) option
     \<Rightarrow> (Options \<Rightarrow> Options) list \<Rightarrow> ('r \<Rightarrow> response \<Rightarrow> response) \<Rightarrow> 'r \<Rightarrow> 's exchange \<Rightarrow> 's exchange" where
  "LimiterMiddleware Format s keyFunc opts next_handler r x =
     (let opt = foldl (\<lambda>opt o'. o' opt) \<lparr>dateFormat = defaultDateFormat, skipper = None\<rparr> opts;
          dateFormat' = dateFormat opt;
          skipperFn = skipper opt
      in if (case skipperFn of None \<Rightarrow> False | Some f \<Rightarrow> f ()) then ServeHTTP next_handler r x
         else
           case keyFunc of
             None \<Rightarrow> x\<lparr>resp := WriteHeader (resp x) StatusInternalServerError\<rparr>
           | Some kf \<Rightarrow>
               let (key, err) = kf r in
               if err \<noteq> nil then x\<lparr>resp := WriteHeader (resp x) StatusInternalServerError\<rparr>
               else
                 let ((limit, remaining, t, ok, err), st) = s key (store x);
                     x = x\<lparr>store := st, take_calls := take_calls x @ [key]\<rparr>
                 in if err \<noteq> nil then x\<lparr>resp := WriteHeader (resp x) StatusInternalServerError\<rparr>
                    else
                      let resetTime = Format dateFormat' (sint t);
                          x = x\<lparr>resp := Header_Set (resp x) HeaderRateLimitLimit (FormatUint limit 10)\<rparr>;
                          x = x\<lparr>resp := Header_Set (resp x) HeaderRateLimitRemaining (FormatUint remaining 10)\<rparr>;
                          x = x\<lparr>resp := Header_Set (resp x) HeaderRateLimitReset resetTime\<rparr>
                      in if \<not> ok then
                           (let x = x\<lparr>resp := Header_Set (resp x) HeaderRetryAfter resetTime\<rparr>
                            in x\<lparr>resp := WriteHeader (resp x) StatusTooManyRequests\<rparr>)
                         else ServeHTTP next_handler r x)"

section \<open>Auxiliary definitions\<close>

text \<open>The value \<open>HMGet\<close> reports for one field.\<close>

definition reply :: "redis \<Rightarrow> string \<Rightarrow> string \<Rightarrow> iface" where
  "reply c pk f = (case hash_of c pk f of None \<Rightarrow> INil | Some v \<Rightarrow> v)"

text \<open>The commands \<open>tag_loop\<close> queues, and the field list \<open>newBucket\<close> writes.\<close>

definition tag_cmds :: "string list \<Rightarrow> string \<Rightarrow> int \<Rightarrow> cmd list" where
  "tag_cmds ts key e = concat (map (\<lambda>t. [SAdd t key, SAdd t key, Expire t e, Expire t e]) ts)"

definition bucket_flds :: "redisStore \<Rightarrow> int \<Rightarrow> string list" where
  "bucket_flds r now =
     [redisMaxPointsFieldName, FormatUint (maxPoints r) 10,
      redisActualPointsFieldName, FormatUint (maxPoints r) 10,
      redisResetTimeFieldName, FormatUint (word_of_int (now + interval r)) 10]"

text \<open>
  The options the middleware ends up with, and whether the skipper is set and answers
  true for this request.
\<close>

definition options_of :: "(Options \<Rightarrow> Options) list \<Rightarrow> Options" where
  "options_of opts = foldl (\<lambda>opt o'. o' opt) \<lparr>dateFormat = defaultDateFormat, skipper = None\<rparr> opts"

definition skips :: "(Options \<Rightarrow> Options) list \<Rightarrow> bool" where
  "skips opts = (case skipper (options_of opts) of None \<Rightarrow> False | Some f \<Rightarrow> f ())"

text \<open>A client after a write of the remaining count \<open>a\<close> into the bucket of a key.\<close>

definition dec_to :: "redis \<Rightarrow> string \<Rightarrow> uint64 \<Rightarrow> redis" where
  "dec_to c pk a =
     c\<lparr>hashes := (hashes c)(pk \<mapsto>
          (hash_of c pk)(redisActualPointsFieldName \<mapsto> IString (FormatUint a 10)))\<rparr>"

text \<open>
  What a call in flight relies on while other calls write. A call that has read a bucket
  and is about to write \<open>a\<close> needs the bucket to be there still, with the limit \<open>l\<close> it
  read and \<open>a \<le> l\<close>; a call about to create a bucket has found none, or the bucket that
  has appeared since has the configured limit.
\<close>

definition limit_of :: "redis \<Rightarrow> string \<Rightarrow> uint64 option" where
  "limit_of c pk = (case bucket_of c pk of None \<Rightarrow> None | Some (l, a, t) \<Rightarrow> Some l)"

definition call_ok :: "redisStore \<Rightarrow> string \<Rightarrow> redis \<Rightarrow> call \<Rightarrow> bool" where
  "call_ok r key c cl =
     (case cl of
        Idle \<Rightarrow> True
      | Returned d \<Rightarrow> within_limit d
      | Reading p \<Rightarrow>
          (case p of
             Finished d \<Rightarrow> within_limit d
           | Create \<Rightarrow>
               errors_Is (hmget_err c) RedisNil
               \<or> reply c (prefix r @ key) redisMaxPointsFieldName = INil
               \<or> limit_of c (prefix r @ key) = Some (maxPoints r)
           | Decrement l a t \<Rightarrow>
               a \<le> l \<and> hmget_err c = nil \<and> limit_of c (prefix r @ key) = Some l))"

text \<open>A call that has returned, returned a decision within its limit.\<close>

definition returned_within_limit :: "call \<Rightarrow> bool" where
  "returned_within_limit cl = (case cl of Returned d \<Rightarrow> within_limit d | _ \<Rightarrow> True)"

section \<open>Inputs of the examples\<close>

text \<open>
  A store as \<open>NewRedisStore\<close> builds it from a configuration of 10 points per second
  without tags, and a client with no keys whose calls all succeed.
\<close>

definition store10 :: redisStore where
  "store10 = \<lparr>tags = [''tags:goratelimit''], tagPrefix = ''tags:'',
              prefix = ''rate_limiter_redistore_'', maxPoints = 10, interval = 1000000000\<rparr>"

definition empty_client :: redis where
  "empty_client = \<lparr>hashes = Map.empty, sets = Map.empty, ttl = Map.empty,
                    hmget_err = nil, hset_err = nil, smembers_err = nil, exec_err = nil\<rparr>"

text \<open>A client holding one bucket, given by the three strings stored in its hash.\<close>

definition bucket_client :: "string \<Rightarrow> string \<Rightarrow> string \<Rightarrow> string \<Rightarrow> redis" where
  "bucket_client pk sl sa st =
     empty_client\<lparr>hashes :=
       [pk \<mapsto> [redisMaxPointsFieldName \<mapsto> IString sl,
                 redisActualPointsFieldName \<mapsto> IString sa,
                 redisResetTimeFieldName \<mapsto> IString st]]\<rparr>"

text \<open>
  The client after the first request for \<open>apikey-1\<close> through \<open>store10\<close> at clock
  reading 1700000000000000000, and the same client when its transactions fail.
\<close>

definition used_client :: redis where
  "used_client =
     empty_client\<lparr>
       hashes := [''rate_limiter_redistore_apikey-1'' \<mapsto>
                    [redisMaxPointsFieldName \<mapsto> IString ''10'',
                     redisActualPointsFieldName \<mapsto> IString ''10'',
                     redisResetTimeFieldName \<mapsto> IString ''1700000001000000000'']],
       sets := [''tags:goratelimit'' \<mapsto> [''rate_limiter_redistore_apikey-1'']],
       ttl := [''tags:goratelimit'' \<mapsto> 1000000000,
               ''rate_limiter_redistore_apikey-1'' \<mapsto> 1000000000]\<rparr>"

definition failing_client :: redis where
  "failing_client = used_client\<lparr>exec_err := ClientError ''EXECABORT''\<rparr>"

text \<open>\<open>noopStore.Take\<close>: always positive. The no-op store has no state.\<close>

definition noop_Take :: "string \<Rightarrow> unit \<Rightarrow> decision \<times> unit" where
  "noop_Take key st = ((0, 0, 0, True, nil), st)"

text \<open>
  Inputs for the middleware examples: a fresh response writer, a handler answering 200,
  key functions that succeed and fail, a store that rejects and one that fails, a
  rendering of the time that knows the epoch only, and a skipper that always skips.
\<close>

definition fresh :: "unit exchange" where
  "fresh = \<lparr>resp = \<lparr>headers = Map.empty, written = []\<rparr>, store = (), take_calls = [], next_calls = 0\<rparr>"

definition ok_handler :: "unit \<Rightarrow> response \<Rightarrow> response" where
  "ok_handler r w = WriteHeader w 200"

definition const_key :: "unit \<Rightarrow> string \<times> error" where
  "const_key r = (''1234'', nil)"

definition failing_key :: "unit \<Rightarrow> string \<times> error" where
  "failing_key r = ([], Errorf ''mock error'')"

definition rejecting_Take :: "string \<Rightarrow> unit \<Rightarrow> decision \<times> unit" where
  "rejecting_Take key st = ((10, 0, 0, False, nil), st)"

definition failing_Take :: "string \<Rightarrow> unit \<Rightarrow> decision \<times> unit" where
  "failing_Take key st = ((0, 0, 0, False, Wrapf ''take'' (Wrapf ''HMGet'' (ClientError ''connection refused''))), st)"

definition plain_Format :: "string \<Rightarrow> int \<Rightarrow> string" where
  "plain_Format layout ns = (if ns = 0 then ''Thu, 01 Jan 1970 00:00:00 UTC'' else layout)"

definition always_skip :: "unit \<Rightarrow> bool" where
  "always_skip u = True"

section \<open>Round trip of the counter encoding\<close>

text \<open>
  What \<open>FormatUint\<close> writes in base 10, \<open>ParseUint\<close> with base 0 reads back: the
  digits carry no prefix (a lone \<open>0\<close> is read as octal zero) and never overflow.
\<close>

lemma fmt_digits_small: "n < b \<Longrightarrow> fmt_digits b n = [digit_char n]"
  by (simp add: fmt_digits.simps)

lemma fmt_digits_step:
  "2 \<le> b \<Longrightarrow> b \<le> n \<Longrightarrow> fmt_digits b n = fmt_digits b (n div b) @ [digit_char (n mod b)]"
  by (subst fmt_digits.simps) simp

lemma digit_cases: "d < (10::nat) \<Longrightarrow> d = 0 \<or> d = 1 \<or> d = 2 \<or> d = 3 \<or> d = 4 \<or> d = 5 \<or> d = 6 \<or> d = 7 \<or> d = 8 \<or> d = 9"
  by arith

lemma digit_of_digit_char: "d < 10 \<Longrightarrow> digit_of (digit_char d) = Some d"
  using digit_cases [of d]
  by (auto simp: digit_of_def digit_char_def byte_def lower_def)

lemma digit_char_not_underscore: "d < 10 \<Longrightarrow> digit_char d \<noteq> CHR ''_''"
  using digit_cases [of d] by (auto simp: digit_char_def)

lemma digit_char_zero: "d < 10 \<Longrightarrow> digit_char d = CHR ''0'' \<longleftrightarrow> d = 0"
  using digit_cases [of d] by (auto simp: digit_char_def)

lemma parse_digits_append:
  "parse_digits b b0 ct mx (xs @ ys) n u =
     (case parse_digits b b0 ct mx xs n u of
        Inl r \<Rightarrow> Inl r
      | Inr (n', u') \<Rightarrow> parse_digits b b0 ct mx ys n' u')"
  by (induction xs arbitrary: n u) (auto simp: Let_def split: option.splits)

lemma parse_digits_one_decimal:
  assumes "10 * q + d < 2 ^ 64" and "d < 10"
  shows "parse_digits 10 b0 (maxUint64 div 10 + 1) (2 ^ 64 - 1) [digit_char d] q u = Inr (10 * q + d, u)"
proof -
  have q: "q < maxUint64 div 10 + 1" using assms by (simp add: maxUint64_def)
  have m1: "(q * 10) mod 2 ^ 64 = q * 10" using assms by simp
  have m2: "(q * 10 + d) mod 2 ^ 64 = q * 10 + d" using assms by (simp add: mult.commute)
  show ?thesis
    using assms q
    by (simp add: digit_of_digit_char digit_char_not_underscore m1 m2 Let_def mult.commute)
qed

lemma parse_digits_fmt:
  "m < 2 ^ 64 \<Longrightarrow>
     parse_digits 10 b0 (maxUint64 div 10 + 1) (2 ^ 64 - 1) (fmt_digits 10 m) 0 u = Inr (m, u)"
proof (induction m rule: less_induct)
  case (less m)
  show ?case
  proof (cases "m < 10")
    case True
    then show ?thesis
      using parse_digits_one_decimal [of 0 m b0 u] less.prems
      by (simp add: fmt_digits_small)
  next
    case False
    have "m div 10 < m" using False by simp
    moreover have "m div 10 < 2 ^ 64" using less.prems by simp
    ultimately have ih: "parse_digits 10 b0 (maxUint64 div 10 + 1) (2 ^ 64 - 1) (fmt_digits 10 (m div 10)) 0 u
        = Inr (m div 10, u)"
      using less.IH by blast
    have "10 * (m div 10) + m mod 10 = m" by simp
    then show ?thesis
      using False less.prems ih parse_digits_one_decimal [of "m div 10" "m mod 10" b0 u]
      by (simp add: fmt_digits_step parse_digits_append)
  qed
qed

lemma fmt_digits_hd: "0 < m \<Longrightarrow> hd (fmt_digits 10 m) \<noteq> CHR ''0'' \<and> fmt_digits 10 m \<noteq> []"
proof (induction m rule: less_induct)
  case (less m)
  show ?case
  proof (cases "m < 10")
    case True
    then show ?thesis using less.prems by (simp add: fmt_digits_small digit_char_zero)
  next
    case False
    then have "0 < m div 10" "m div 10 < m" by simp_all
    then have "hd (fmt_digits 10 (m div 10)) \<noteq> CHR ''0'' \<and> fmt_digits 10 (m div 10) \<noteq> []"
      using less.IH by blast
    then show ?thesis using False by (simp add: fmt_digits_step)
  qed
qed

lemma ParseUint_FormatUint: "ParseUint (FormatUint w 10) 0 64 = (w, nil)"
proof (cases "unat w = 0")
  case True
  then show ?thesis
    by (simp add: ParseUint_def FormatUint_def fmt_digits_small digit_char_def base_prefix_def unat_eq_0)
next
  case False
  let ?s = "fmt_digits 10 (unat w)"
  have lt: "unat w < 2 ^ 64" using unsigned_less [of w] by simp
  have hd: "hd ?s \<noteq> CHR ''0''" and ne: "?s \<noteq> []" using fmt_digits_hd [of "unat w"] False by simp_all
  then have "?s ! 0 \<noteq> CHR ''0''" by (simp add: hd_conv_nth)
  then have bp: "base_prefix ?s = (10, ?s)" by (simp add: base_prefix_def)
  show ?thesis
    using ne bp parse_digits_fmt [OF lt, of True False]
    by (simp add: ParseUint_def FormatUint_def)
qed

section \<open>The client calls of the store\<close>

lemmas field_names = redisMaxPointsFieldName_def redisActualPointsFieldName_def redisResetTimeFieldName_def

lemma HMGet_ok:
  "hmget_err c = nil \<Longrightarrow> HMGet c pk [f1, f2, f3] = ([reply c pk f1, reply c pk f2, reply c pk f3], nil)"
  by (simp add: HMGet_def reply_def)

lemma decode_field_Some:
  "decode_field x = Some v \<longleftrightarrow> (\<exists>s. x = Some (IString s) \<and> ParseUint s 0 64 = (v, nil))"
  by (auto simp: decode_field_def split: option.splits iface.splits prod.splits if_splits)

lemma decode_field_IString:
  "decode_field (Some (IString s)) = (if snd (ParseUint s 0 64) = nil then Some (fst (ParseUint s 0 64)) else None)"
  by (simp add: decode_field_def split: prod.splits)

lemma bucket_of_Some:
  "bucket_of c pk = Some (l, a, t) \<longleftrightarrow>
     (\<exists>sl sa st.
        hash_of c pk redisMaxPointsFieldName = Some (IString sl) \<and> ParseUint sl 0 64 = (l, nil) \<and>
        hash_of c pk redisActualPointsFieldName = Some (IString sa) \<and> ParseUint sa 0 64 = (a, nil) \<and>
        hash_of c pk redisResetTimeFieldName = Some (IString st) \<and> ParseUint st 0 64 = (t, nil))"
proof
  assume "bucket_of c pk = Some (l, a, t)"
  then have "decode_field (hash_of c pk redisMaxPointsFieldName) = Some l"
    and "decode_field (hash_of c pk redisActualPointsFieldName) = Some a"
    and "decode_field (hash_of c pk redisResetTimeFieldName) = Some t"
    by (auto simp: bucket_of_def split: option.splits)
  then show "\<exists>sl sa st.
        hash_of c pk redisMaxPointsFieldName = Some (IString sl) \<and> ParseUint sl 0 64 = (l, nil) \<and>
        hash_of c pk redisActualPointsFieldName = Some (IString sa) \<and> ParseUint sa 0 64 = (a, nil) \<and>
        hash_of c pk redisResetTimeFieldName = Some (IString st) \<and> ParseUint st 0 64 = (t, nil)"
    unfolding decode_field_Some by blast
next
  assume "\<exists>sl sa st.
        hash_of c pk redisMaxPointsFieldName = Some (IString sl) \<and> ParseUint sl 0 64 = (l, nil) \<and>
        hash_of c pk redisActualPointsFieldName = Some (IString sa) \<and> ParseUint sa 0 64 = (a, nil) \<and>
        hash_of c pk redisResetTimeFieldName = Some (IString st) \<and> ParseUint st 0 64 = (t, nil)"
  then show "bucket_of c pk = Some (l, a, t)"
    by (auto simp: bucket_of_def decode_field_IString)
qed

lemma bucket_of_reply:
  "bucket_of c pk = Some (l, a, t) \<Longrightarrow> reply c pk redisMaxPointsFieldName \<noteq> INil"
  unfolding bucket_of_Some by (auto simp: reply_def)

lemma bucket_of_cong: "hash_of c' k = hash_of c k \<Longrightarrow> bucket_of c' k = bucket_of c k"
  by (simp add: bucket_of_def cong: option.case_cong)

lemma bucket_inv_cong: "hash_of c' k = hash_of c k \<Longrightarrow> bucket_inv c' k = bucket_inv c k"
  using bucket_of_cong [of c' k c] by (simp add: bucket_inv_def cong: option.case_cong)

lemma bucket_inv_None:
  "bucket_inv c pk \<Longrightarrow> bucket_of c pk = None \<Longrightarrow> reply c pk redisMaxPointsFieldName = INil"
  by (auto simp: bucket_inv_def reply_def split: option.splits)

lemma bucket_inv_Some:
  "bucket_inv c pk \<Longrightarrow> bucket_of c pk = Some (l, a, t) \<Longrightarrow> a \<le> l"
  by (simp add: bucket_inv_def)

lemma no_bucket_iff:
  "no_bucket r key c \<longleftrightarrow>
     (errors_Is (hmget_err c) RedisNil
      \<or> (hmget_err c = nil \<and> reply c (prefix r @ key) redisMaxPointsFieldName = INil))"
  by (auto simp: no_bucket_def HMGet_def reply_def)

lemma tag_loop_eq: "tag_loop ts key e pipe = pipe @ tag_cmds ts key e"
  by (induction ts arbitrary: pipe) (simp_all add: tag_cmds_def pipe_cmd_def Process_def)

lemma hashes_tag_cmds: "hashes (foldl apply_cmd c (tag_cmds ts key e)) = hashes c"
  by (induction ts arbitrary: c) (simp_all add: tag_cmds_def)

lemma hset_pipeline:
  "hset r key flds e c =
     (if exec_err c \<noteq> nil then (Wrapf ''redis pipeline exec'' (exec_err c), c)
      else (nil, foldl apply_cmd c
                   (tag_cmds (tags r) key e @ [HSet key flds, HSet key flds, Expire key e, Expire key e])))"
  by (simp add: hset_def tag_loop_eq TxPipeline_def pipe_cmd_def Process_def Exec_def)

lemma hset_hashes:
  assumes "exec_err c = nil"
  shows "hashes (snd (hset r key flds e c)) = (hashes c)(key \<mapsto> set_fields (set_fields (hash_of c key) flds) flds)"
  using assms by (simp add: hset_pipeline hashes_tag_cmds hash_of_def exists_key_def)

lemma hset_ttl:
  assumes "exec_err c = nil"
  shows "ttl (snd (hset r key flds e c)) key = Some e"
  using assms by (simp add: hset_pipeline hashes_tag_cmds hash_of_def exists_key_def)

text \<open>Other keys keep their hash.\<close>

lemma hash_of_hset_other:
  "k \<noteq> pk \<Longrightarrow> hash_of (snd (hset r pk flds e c)) k = hash_of c k"
  by (simp add: hset_pipeline hashes_tag_cmds hash_of_def exists_key_def)

lemma newBucket_eq:
  "newBucket r now pk c =
     (if exec_err c \<noteq> nil
      then ((0, 0, 0, False, Wrapf ''redis hmset'' (Wrapf ''redis pipeline exec'' (exec_err c))), c)
      else ((maxPoints r, maxPoints r, word_of_int (now + interval r), True, nil),
            snd (hset r pk (bucket_flds r now) (interval r) c)))"
  by (simp add: newBucket_def hset_pipeline Let_def bucket_flds_def del: of_int_add)

lemma bucket_of_hset:
  assumes "exec_err c = nil"
  shows "bucket_of (snd (hset r pk (bucket_flds r now) (interval r) c)) pk
           = Some (maxPoints r, maxPoints r, word_of_int (now + interval r))"
proof -
  let ?res = "hset r pk (bucket_flds r now) (interval r) c"
  have "hash_of (snd ?res) pk = set_fields (set_fields (hash_of c pk) (bucket_flds r now)) (bucket_flds r now)"
    by (simp add: hash_of_def [of "snd ?res"] hset_hashes [OF assms])
  then show ?thesis
    by (simp add: bucket_of_def decode_field_IString ParseUint_FormatUint field_names bucket_flds_def
             del: of_int_add)
qed

lemma newBucket_ok:
  assumes "exec_err c = nil"
  shows "fst (newBucket r now pk c) = (maxPoints r, maxPoints r, word_of_int (now + interval r), True, nil)"
    and "bucket_of (snd (newBucket r now pk c)) pk
           = Some (maxPoints r, maxPoints r, word_of_int (now + interval r))"
    and "ttl (snd (newBucket r now pk c)) pk = Some (interval r)"
  using assms bucket_of_hset [OF assms] hset_ttl [OF assms]
  by (simp_all add: newBucket_eq del: of_int_add)

lemma bucket_of_decrement:
  assumes "bucket_of c pk = Some (l, a, t)"
  shows "bucket_of (c\<lparr>hashes := (hashes c)(pk \<mapsto>
            (hash_of c pk)(redisActualPointsFieldName \<mapsto> IString (FormatUint a' 10)))\<rparr>) pk
         = Some (l, a', t)"
proof -
  let ?c' = "c\<lparr>hashes := (hashes c)(pk \<mapsto>
            (hash_of c pk)(redisActualPointsFieldName \<mapsto> IString (FormatUint a' 10)))\<rparr>"
  have "hash_of ?c' pk = (hash_of c pk)(redisActualPointsFieldName \<mapsto> IString (FormatUint a' 10))"
    by (simp add: hash_of_def)
  then show ?thesis
    using assms unfolding bucket_of_Some
    by (auto simp: field_names ParseUint_FormatUint)
qed

lemma reset_pipeline:
  "reset r c =
     (if tags r = [] then (Errorf ''tags not set'', c)
      else if smembers_err c \<noteq> nil then (Wrapf ''redis smembers'' (smembers_err c), c)
      else if exec_err c \<noteq> nil then (Wrapf ''redis pipeline exec'' (exec_err c), c)
      else (nil, apply_cmd (apply_cmd c (Del (members_of c (tags r ! 0)))) (Del (tags r))))"
  by (simp add: reset_def SMembers_def Exec_def TxPipeline_def pipe_cmd_def Process_def Let_def
        Int_Un_distrib Int_absorb)

lemma Reset_reset:
  "Reset r c = (if fst (reset r c) \<noteq> nil then (Wrapf ''reset'' (fst (reset r c)), snd (reset r c))
                else (nil, snd (reset r c)))"
  by (simp add: Reset_def split: prod.splits)

section \<open>The branches of take\<close>

lemma take_split: "take r now key c = take_write r now key (take_read r key c) c"
  by (simp add: take_def take_read_def take_write_def Let_def split: prod.splits)

lemma take_read_existing:
  assumes "hmget_err c = nil" and "bucket_of c (prefix r @ key) = Some (l, a, t)"
  shows "take_read r key c =
           (if a > 0 then Decrement l (a - 1) t else Finished (l, a, t, False, nil))"
proof -
  from assms(2) obtain sl sa st where
    h: "hash_of c (prefix r @ key) redisMaxPointsFieldName = Some (IString sl)"
       "hash_of c (prefix r @ key) redisActualPointsFieldName = Some (IString sa)"
       "hash_of c (prefix r @ key) redisResetTimeFieldName = Some (IString st)"
    and p: "ParseUint sl 0 64 = (l, nil)" "ParseUint sa 0 64 = (a, nil)" "ParseUint st 0 64 = (t, nil)"
    unfolding bucket_of_Some by blast
  show ?thesis
    by (simp add: take_read_def HMGet_ok [OF assms(1)] reply_def h p assert_string_def)
qed

lemma take_no_bucket: "no_bucket r key c \<Longrightarrow> take r now key c = newBucket r now (prefix r @ key) c"
  by (auto simp: no_bucket_def take_def Let_def split: prod.splits)

lemma take_hmget_error:
  assumes "hmget_err c \<noteq> nil" and "\<not> errors_Is (hmget_err c) RedisNil"
  shows "take r now key c = ((0, 0, 0, False, Wrapf ''HMGet'' (hmget_err c)), c)"
  using assms by (simp add: take_def HMGet_def)

lemma take_existing:
  assumes "hmget_err c = nil" and "bucket_of c (prefix r @ key) = Some (l, a, t)"
  shows "take r now key c =
     (if a > 0 then
        (if hset_err c \<noteq> nil
         then ((0, 0, 0, True, Wrapf ''redis hmset'' (Wrapf ''redis hset'' (hset_err c))), c)
         else ((l, a - 1, t, True, nil),
               c\<lparr>hashes := (hashes c)(prefix r @ key \<mapsto>
                    (hash_of c (prefix r @ key))
                      (redisActualPointsFieldName \<mapsto> IString (FormatUint (a - 1) 10)))\<rparr>))
      else ((l, a, t, False, nil), c))"
  using assms
  by (simp add: take_split take_read_existing take_write_def update_def HSet_direct_def Let_def)

lemma Take_take:
  "Take r now key c =
     (if snd (snd (snd (snd (fst (take r now key c))))) \<noteq> nil
      then ((0, 0, 0, False, Wrapf ''take'' (snd (snd (snd (snd (fst (take r now key c))))))), snd (take r now key c))
      else take r now key c)"
  by (simp add: Take_def split: prod.splits)

lemma snd_Take: "snd (Take r now key c) = snd (take r now key c)"
  by (simp add: Take_take)

lemma Take_existing:
  assumes "hmget_err c = nil" and "hset_err c = nil" and "bucket_of c (prefix r @ key) = Some (l, a, t)"
  shows "Take r now key c =
     (if a > 0 then
        ((l, a - 1, t, True, nil),
         c\<lparr>hashes := (hashes c)(prefix r @ key \<mapsto>
              (hash_of c (prefix r @ key))
                (redisActualPointsFieldName \<mapsto> IString (FormatUint (a - 1) 10)))\<rparr>)
      else ((l, a, t, False, nil), c))"
  using assms by (simp add: Take_take take_existing)

lemma assert_string_reply:
  "snd (assert_string x) \<longleftrightarrow> (\<exists>s. x = IString s)"
  by (cases x) (simp_all add: assert_string_def)

lemma word_pred_le_self: "(0 :: uint64) < a \<Longrightarrow> a - 1 \<le> a"
proof -
  assume "0 < a"
  then have "a \<noteq> 0" by simp
  then have "unat a \<noteq> 0" by (simp add: unat_eq_0)
  then have "unat (a - 1) = unat a - 1" by (simp add: unat_minus_one \<open>a \<noteq> 0\<close>)
  then show ?thesis by (simp add: word_le_nat_alt)
qed

lemma word_pred_le: "(0 :: uint64) < a \<Longrightarrow> a \<le> l \<Longrightarrow> a - 1 \<le> l"
  using word_pred_le_self [of a] by simp


section \<open>Concrete inputs\<close>

lemmas client_simps = store10_def empty_client_def HMGet_def hash_of_def no_bucket_def field_names

text \<open>Facts for evaluating the strings of the examples.\<close>

lemmas parse_eval = ParseUint_def base_prefix_def digit_of_def byte_def lower_def maxUint64_def underscoreOK_def

lemma fmt_eval:
  "FormatUint 10 10 = ''10''"
  by (simp add: FormatUint_def fmt_digits_small fmt_digits_step digit_char_def)

lemma fmt_reset: "FormatUint 1700000001000000000 10 = ''1700000001000000000''"
  by (simp add: FormatUint_def fmt_digits_small fmt_digits_step digit_char_def)

lemma parse_10: "ParseUint ''10'' 0 64 = (10, nil)"
  by (simp add: parse_eval)

lemma parse_3: "ParseUint ''3'' 0 64 = (3, nil)"
  by (simp add: parse_eval)


lemma parse_0: "ParseUint ''0'' 0 64 = (0, nil)"
  by (simp add: parse_eval)

lemma parse_reset: "ParseUint ''1700000001000000000'' 0 64 = (1700000001000000000, nil)"
  by (simp add: parse_eval)

lemma parse_abc: "ParseUint ''abc'' 0 64 = (0, ErrSyntax)"
  by (simp add: parse_eval)

lemma bucket_client_simps:
  "hash_of (bucket_client pk sl sa st) pk redisMaxPointsFieldName = Some (IString sl)"
  "hash_of (bucket_client pk sl sa st) pk redisActualPointsFieldName = Some (IString sa)"
  "hash_of (bucket_client pk sl sa st) pk redisResetTimeFieldName = Some (IString st)"
  "hmget_err (bucket_client pk sl sa st) = nil"
  "hset_err (bucket_client pk sl sa st) = nil"
  "smembers_err (bucket_client pk sl sa st) = nil"
  "exec_err (bucket_client pk sl sa st) = nil"
  by (simp_all add: bucket_client_def empty_client_def hash_of_def field_names)

lemma bucket_of_bucket_client:
  "ParseUint sl 0 64 = (l, nil) \<Longrightarrow> ParseUint sa 0 64 = (a, nil) \<Longrightarrow> ParseUint st 0 64 = (t, nil)
     \<Longrightarrow> bucket_of (bucket_client pk sl sa st) pk = Some (l, a, t)"
  unfolding bucket_of_Some by (simp add: bucket_client_simps)

text \<open>\<open>used_client\<close> is what the first request leaves behind.\<close>

lemma first_take_state:
  "Take store10 1700000000000000000 ''apikey-1'' empty_client
     = ((10, 10, 1700000001000000000, True, nil), used_client)"
  by (simp add: Take_def take_def HMGet_def newBucket_def hset_pipeline tag_cmds_def
        store10_def empty_client_def used_client_def hash_of_def members_of_def exists_key_def
        fmt_eval fmt_reset field_names fun_upd_twist Let_def)

lemma bucket_inv_empty: "bucket_inv empty_client k"
  by (simp add: bucket_inv_def bucket_of_def decode_field_def hash_of_def empty_client_def)

lemma bucket_of_used:
  "bucket_of used_client ''rate_limiter_redistore_apikey-1'' = Some (10, 10, 1700000001000000000)"
  unfolding bucket_of_Some
  by (simp add: used_client_def empty_client_def hash_of_def field_names parse_10 parse_reset)

lemma bucket_inv_used: "bucket_inv used_client k"
proof (cases "k = ''rate_limiter_redistore_apikey-1''")
  case True
  then show ?thesis by (simp add: bucket_inv_def bucket_of_used)
next
  case False
  then show ?thesis
    by (simp add: bucket_inv_def bucket_of_def decode_field_def hash_of_def used_client_def empty_client_def)
qed

section \<open>Take on the store\<close>

text \<open>
  Claim C1. When \<open>take\<close> finds no bucket for the key (\<open>HMGet\<close> reports \<open>redis.Nil\<close>, or
  the first value of its answer is nil) and the transaction that writes the bucket goes
  through, \<open>Take\<close> returns \<open>(limit, limit, resetTime, true, nil)\<close> with \<open>limit\<close> the
  configured points and \<open>resetTime\<close> the clock reading plus the configured interval (so
  the remaining count returned is \<open>limit\<close>, not \<open>limit - 1\<close>); afterwards the key
  holds the bucket \<open>(limit, limit, resetTime)\<close> and its expiry is the configured interval.
\<close>

theorem Take_creates_bucket:
  assumes "no_bucket r key c" and "exec_err c = nil"
  shows "fst (Take r now key c) = (maxPoints r, maxPoints r, word_of_int (now + interval r), True, nil)
       \<and> bucket_of (snd (Take r now key c)) (prefix r @ key)
           = Some (maxPoints r, maxPoints r, word_of_int (now + interval r))
       \<and> ttl (snd (Take r now key c)) (prefix r @ key) = Some (interval r)"
  using newBucket_ok [OF assms(2), of r now "prefix r @ key"]
  by (simp add: Take_take take_no_bucket [OF assms(1)] del: of_int_add)

text \<open>First request for \<open>apikey-1\<close> on a client without keys: 10 points per second.\<close>

theorem Take_creates_bucket_witness:
  "no_bucket store10 ''apikey-1'' empty_client \<and> exec_err empty_client = nil
   \<and> fst (Take store10 1700000000000000000 ''apikey-1'' empty_client)
        = (10, 10, 1700000001000000000, True, nil)
   \<and> bucket_of (snd (Take store10 1700000000000000000 ''apikey-1'' empty_client))
        ''rate_limiter_redistore_apikey-1'' = Some (10, 10, 1700000001000000000)
   \<and> ttl (snd (Take store10 1700000000000000000 ''apikey-1'' empty_client))
        ''rate_limiter_redistore_apikey-1'' = Some 1000000000"
proof -
  have h1: "no_bucket store10 ''apikey-1'' empty_client"
    by (simp add: client_simps)
  have h2: "exec_err empty_client = nil"
    by (simp add: empty_client_def)
  show ?thesis
    using h1 h2 Take_creates_bucket [OF h1 h2, of 1700000000000000000]
    by (simp add: store10_def)
qed

text \<open>
  Claim C2 asks that a stored field which is no unsigned numeral makes \<open>Take\<close> return an
  error. The three tests after \<open>ParseUint\<close> read \<open>err\<close>, which is nil there, and not
  \<open>pErr\<close>: with \<open>abc\<close> as the remaining count, \<open>Take\<close> answers without error, the
  count read as 0.
\<close>

theorem Take_ignores_parse_error:
  "Take store10 1700000000500000000 ''apikey-1''
     (bucket_client ''rate_limiter_redistore_apikey-1'' ''10'' ''abc'' ''1700000001000000000'')
   = ((10, 0, 1700000001000000000, False, nil),
      bucket_client ''rate_limiter_redistore_apikey-1'' ''10'' ''abc'' ''1700000001000000000'')"
  by (simp add: Take_def take_def HMGet_def bucket_client_simps store10_def assert_string_def
        parse_10 parse_abc parse_reset)

text \<open>
  The other half of claim C2 holds: a limit that is not a string (and not nil), or a
  remaining count or reset time that is not a string, makes \<open>Take\<close> return the error
  \<open>redis mismatch types\<close> and write nothing.
\<close>

lemma take_type_mismatch:
  assumes "hmget_err c = nil"
    and "reply c (prefix r @ key) redisMaxPointsFieldName \<noteq> INil"
    and "\<not> (snd (assert_string (reply c (prefix r @ key) redisMaxPointsFieldName))
            \<and> snd (assert_string (reply c (prefix r @ key) redisActualPointsFieldName))
            \<and> snd (assert_string (reply c (prefix r @ key) redisResetTimeFieldName)))"
  shows "Take r now key c = ((0, 0, 0, False, Wrapf ''take'' (Errorf ''redis mismatch types'')), c)"
  using assms
  by (auto simp: Take_def take_def HMGet_ok Let_def split: prod.splits)

text \<open>
  Claim C3. For an existing bucket \<open>(l, a, t)\<close> with \<open>a > 0\<close>, when the read and the
  write succeed, \<open>Take\<close> returns \<open>(l, a - 1, t, true, nil)\<close>; the client state changes
  in the remaining-points field of the bucket's hash and nowhere else: the expiry of every
  key and every tag set are as before.
\<close>

theorem Take_decrements:
  assumes "hmget_err c = nil" and "hset_err c = nil"
    and "bucket_of c (prefix r @ key) = Some (l, a, t)" and "a > 0"
  shows "Take r now key c =
           ((l, a - 1, t, True, nil),
            c\<lparr>hashes := (hashes c)(prefix r @ key \<mapsto>
                 (hash_of c (prefix r @ key))(redisActualPointsFieldName \<mapsto> IString (FormatUint (a - 1) 10)))\<rparr>)
       \<and> bucket_of (snd (Take r now key c)) (prefix r @ key) = Some (l, a - 1, t)
       \<and> ttl (snd (Take r now key c)) = ttl c
       \<and> sets (snd (Take r now key c)) = sets c"
proof -
  let ?pk = "prefix r @ key"
  let ?c' = "c\<lparr>hashes := (hashes c)(?pk \<mapsto>
                 (hash_of c ?pk)(redisActualPointsFieldName \<mapsto> IString (FormatUint (a - 1) 10)))\<rparr>"
  have rd: "take_read r key c = Decrement l (a - 1) t"
    using assms by (simp add: take_read_existing)
  have tk: "take r now key c = ((l, a - 1, t, True, nil), ?c')"
    using assms(2) by (simp add: take_split rd take_write_def update_def HSet_direct_def Let_def)
  have T: "Take r now key c = ((l, a - 1, t, True, nil), ?c')"
    by (simp add: Take_def tk)
  have "hash_of ?c' ?pk = (hash_of c ?pk)(redisActualPointsFieldName \<mapsto> IString (FormatUint (a - 1) 10))"
    by (simp add: hash_of_def)
  then have b: "bucket_of ?c' ?pk = Some (l, a - 1, t)"
    using assms(3) unfolding bucket_of_Some
    by (auto simp: field_names ParseUint_FormatUint)
  show ?thesis
    using b by (simp add: T)
qed

text \<open>A bucket with 3 of 10 points left goes to 2.\<close>

theorem Take_decrements_witness:
  "hmget_err (bucket_client ''rate_limiter_redistore_apikey-1'' ''10'' ''3'' ''1700000001000000000'') = nil
   \<and> hset_err (bucket_client ''rate_limiter_redistore_apikey-1'' ''10'' ''3'' ''1700000001000000000'') = nil
   \<and> bucket_of (bucket_client ''rate_limiter_redistore_apikey-1'' ''10'' ''3'' ''1700000001000000000'')
        (prefix store10 @ ''apikey-1'') = Some (10, 3, 1700000001000000000)
   \<and> (3 :: uint64) > 0
   \<and> fst (Take store10 1700000000500000000 ''apikey-1''
            (bucket_client ''rate_limiter_redistore_apikey-1'' ''10'' ''3'' ''1700000001000000000''))
        = (10, 2, 1700000001000000000, True, nil)
   \<and> bucket_of (snd (Take store10 1700000000500000000 ''apikey-1''
            (bucket_client ''rate_limiter_redistore_apikey-1'' ''10'' ''3'' ''1700000001000000000'')))
        (prefix store10 @ ''apikey-1'') = Some (10, 2, 1700000001000000000)"
proof -
  let ?c = "bucket_client ''rate_limiter_redistore_apikey-1'' ''10'' ''3'' ''1700000001000000000''"
  have h1: "hmget_err ?c = nil" and h2: "hset_err ?c = nil"
    by (simp_all add: bucket_client_simps)
  have h3: "bucket_of ?c (prefix store10 @ ''apikey-1'') = Some (10, 3, 1700000001000000000)"
    by (simp add: store10_def bucket_of_bucket_client [OF parse_10 parse_3 parse_reset])
  have h4: "(3 :: uint64) > 0" by simp
  note T = Take_decrements [OF h1 h2 h3 h4, of 1700000000500000000]
  have a: "fst (Take store10 1700000000500000000 ''apikey-1'' ?c) = (10, 2, 1700000001000000000, True, nil)"
    using T [THEN conjunct1] by simp
  have b: "bucket_of (snd (Take store10 1700000000500000000 ''apikey-1'' ?c)) (prefix store10 @ ''apikey-1'')
             = Some (10, 2, 1700000001000000000)"
    using T [THEN conjunct2, THEN conjunct1] by simp
  show ?thesis
    using h1 h2 h3 a b by simp
qed

text \<open>
  Claim C4. For an existing bucket \<open>(l, 0, t)\<close>, \<open>Take\<close> returns
  \<open>(l, 0, t, false, nil)\<close> and leaves the client state as it was; any number of
  further calls give the same answer, so the remaining count stays at 0.
\<close>

theorem Take_rejects_at_zero:
  assumes "hmget_err c = nil" and "bucket_of c (prefix r @ key) = Some (l, 0, t)"
  shows "Take r now key c = ((l, 0, t, False, nil), c)
       \<and> take_seq r key nows c = (replicate (length nows) (l, 0, t, False, nil), c)"
proof -
  have one: "Take r n key c = ((l, 0, t, False, nil), c)" for n
    using assms by (simp add: Take_def take_split take_read_existing take_write_def Let_def)
  have "take_seq r key nows c = (replicate (length nows) (l, 0, t, False, nil), c)"
    by (induction nows) (simp_all add: one)
  then show ?thesis by (simp add: one)
qed

text \<open>Two calls on an exhausted bucket.\<close>

theorem Take_rejects_at_zero_witness:
  "hmget_err (bucket_client ''rate_limiter_redistore_apikey-1'' ''10'' ''0'' ''1700000001000000000'') = nil
   \<and> bucket_of (bucket_client ''rate_limiter_redistore_apikey-1'' ''10'' ''0'' ''1700000001000000000'')
        (prefix store10 @ ''apikey-1'') = Some (10, 0, 1700000001000000000)
   \<and> take_seq store10 ''apikey-1'' [1700000000500000000, 1700000000600000000]
        (bucket_client ''rate_limiter_redistore_apikey-1'' ''10'' ''0'' ''1700000001000000000'')
      = ([(10, 0, 1700000001000000000, False, nil), (10, 0, 1700000001000000000, False, nil)],
         bucket_client ''rate_limiter_redistore_apikey-1'' ''10'' ''0'' ''1700000001000000000'')"
proof -
  let ?c = "bucket_client ''rate_limiter_redistore_apikey-1'' ''10'' ''0'' ''1700000001000000000''"
  have h1: "hmget_err ?c = nil"
    by (simp add: bucket_client_simps)
  have h2: "bucket_of ?c (prefix store10 @ ''apikey-1'') = Some (10, 0, 1700000001000000000)"
    by (simp add: store10_def bucket_of_bucket_client [OF parse_10 parse_0 parse_reset])
  show ?thesis
    using h1 h2 Take_rejects_at_zero [OF h1 h2, of 0 "[1700000000500000000, 1700000000600000000]"]
    by (simp add: numeral_2_eq_2)
qed

section \<open>The invariant of a bucket\<close>

text \<open>The three ways a call of \<open>take\<close> can go, for a key that satisfies the invariant.\<close>

lemma take_trichotomy:
  assumes "bucket_inv c (prefix r @ key)"
  shows "no_bucket r key c
       \<or> (hmget_err c \<noteq> nil \<and> \<not> errors_Is (hmget_err c) RedisNil)
       \<or> (hmget_err c = nil \<and> \<not> no_bucket r key c
           \<and> (\<exists>l a t. bucket_of c (prefix r @ key) = Some (l, a, t) \<and> a \<le> l))"
proof (cases "no_bucket r key c")
  case True
  then show ?thesis by simp
next
  case nb: False
  show ?thesis
  proof (cases "hmget_err c = nil")
    case True
    with nb have ne: "reply c (prefix r @ key) redisMaxPointsFieldName \<noteq> INil"
      by (simp add: no_bucket_iff)
    then obtain l a t where b: "bucket_of c (prefix r @ key) = Some (l, a, t)"
      using bucket_inv_None [OF assms] by (cases "bucket_of c (prefix r @ key)") auto
    then show ?thesis using True nb bucket_inv_Some [OF assms b] by blast
  next
    case False
    then show ?thesis using nb by (simp add: no_bucket_iff)
  qed
qed

lemma take_other_keys:
  assumes "k \<noteq> prefix r @ key"
  shows "hash_of (snd (take r now key c)) k = hash_of c k"
proof -
  have w: "hash_of (snd (take_write r now key p c)) k = hash_of c k" for p
  proof (cases p)
    case (Finished d)
    then show ?thesis by (simp add: take_write_def)
  next
    case Create
    then show ?thesis
      using hash_of_hset_other [OF assms, of r "bucket_flds r now" "interval r" c]
      by (simp add: take_write_def newBucket_eq)
  next
    case (Decrement l a t)
    then show ?thesis
      using assms by (simp add: take_write_def update_def HSet_direct_def hash_of_def Let_def)
  qed
  show ?thesis by (simp add: take_split w)
qed

lemma take_new_inv:
  assumes "no_bucket r key c" and "bucket_inv c (prefix r @ key)"
  shows "bucket_inv (snd (take r now key c)) (prefix r @ key)"
proof (cases "exec_err c = nil")
  case True
  then show ?thesis
    using bucket_of_hset [OF True, of r "prefix r @ key" now]
    by (simp add: take_no_bucket [OF assms(1)] newBucket_eq bucket_inv_def del: of_int_add)
next
  case False
  then show ?thesis using assms(2) by (simp add: take_no_bucket [OF assms(1)] newBucket_eq)
qed

lemma take_existing_after:
  assumes "hmget_err c = nil" and "bucket_of c (prefix r @ key) = Some (l, a, t)"
  shows "\<exists>a'. bucket_of (snd (take r now key c)) (prefix r @ key) = Some (l, a', t) \<and> a' \<le> a
              \<and> (a' = a \<or> (0 < a \<and> a' = a - 1))"
proof (cases "0 < a \<and> hset_err c = nil")
  case True
  then show ?thesis
    using bucket_of_decrement [OF assms(2), of "a - 1"] word_pred_le_self [of a]
    by (simp add: take_existing [OF assms])
next
  case False
  then have "snd (take r now key c) = c"
    by (auto simp: take_existing [OF assms])
  then show ?thesis using assms(2) by simp
qed

lemma take_inv:
  assumes "bucket_inv c (prefix r @ key)"
  shows "bucket_inv (snd (take r now key c)) (prefix r @ key)"
  using take_trichotomy [OF assms]
proof (elim disjE conjE exE)
  assume "no_bucket r key c"
  then show ?thesis using assms by (rule take_new_inv)
next
  assume "hmget_err c \<noteq> nil" "\<not> errors_Is (hmget_err c) RedisNil"
  then show ?thesis using assms by (simp add: take_hmget_error)
next
  fix l a t
  assume h: "hmget_err c = nil" and b: "bucket_of c (prefix r @ key) = Some (l, a, t)" and le: "a \<le> l"
  from take_existing_after [OF h b, of now] obtain a' where
    "bucket_of (snd (take r now key c)) (prefix r @ key) = Some (l, a', t)" "a' \<le> a"
    by blast
  then show ?thesis using le by (simp add: bucket_inv_def)
qed

lemma take_inv_all:
  assumes "\<forall>k. bucket_inv c k"
  shows "\<forall>k. bucket_inv (snd (take r now key c)) k"
proof
  fix k
  show "bucket_inv (snd (take r now key c)) k"
  proof (cases "k = prefix r @ key")
    case True
    then show ?thesis using assms take_inv [of c r key now] by simp
  next
    case False
    then show ?thesis
      using assms bucket_inv_cong [OF take_other_keys [OF False, of now c]] by simp
  qed
qed

lemma take_within_limit:
  assumes "bucket_inv c (prefix r @ key)"
  shows "within_limit (fst (take r now key c))"
  using take_trichotomy [OF assms]
proof (elim disjE conjE exE)
  assume "no_bucket r key c"
  then show ?thesis by (simp add: take_no_bucket newBucket_eq within_limit_def)
next
  assume "hmget_err c \<noteq> nil" "\<not> errors_Is (hmget_err c) RedisNil"
  then show ?thesis by (simp add: take_hmget_error within_limit_def)
next
  fix l a t
  assume h: "hmget_err c = nil" and b: "bucket_of c (prefix r @ key) = Some (l, a, t)" and le: "a \<le> l"
  show ?thesis
    using le word_pred_le [of a l] by (simp add: take_existing [OF h b] within_limit_def)
qed

lemma Take_within_limit:
  assumes "bucket_inv c (prefix r @ key)"
  shows "within_limit (fst (Take r now key c))"
  using take_within_limit [OF assms, of now]
  by (simp add: Take_take within_limit_def split: prod.splits)

lemma take_seq_inv:
  "\<forall>k. bucket_inv c k \<Longrightarrow>
     (\<forall>k. bucket_inv (snd (take_seq r key nows c)) k)
     \<and> list_all within_limit (fst (take_seq r key nows c))"
proof (induction nows arbitrary: c)
  case Nil
  then show ?case by simp
next
  case (Cons now nows)
  have inv': "\<forall>k. bucket_inv (snd (Take r now key c)) k"
    using take_inv_all [OF Cons.prems] by (simp add: snd_Take)
  have wl: "within_limit (fst (Take r now key c))"
    using Cons.prems by (simp add: Take_within_limit)
  show ?case
    using Cons.IH [OF inv'] wl by (simp add: split_beta)
qed

text \<open>
  Calls that overlap. Each call makes its read and its write as separate steps of a
  schedule; the invariant of the key survives every schedule.
\<close>

lemma limit_of_Some: "limit_of c pk = Some l \<longleftrightarrow> (\<exists>a t. bucket_of c pk = Some (l, a, t))"
  by (auto simp: limit_of_def split: option.splits)

lemma faults_foldl:
  "hmget_err (foldl apply_cmd c cmds) = hmget_err c"
proof (induction cmds arbitrary: c)
  case Nil
  then show ?case by simp
next
  case (Cons x xs)
  have "hmget_err (apply_cmd c x) = hmget_err c" by (cases x) simp_all
  then show ?case using Cons.IH [of "apply_cmd c x"] by simp
qed

lemma hmget_err_hset: "hmget_err (snd (hset r pk flds e c)) = hmget_err c"
  by (simp add: hset_pipeline faults_foldl)

lemma take_read_no_bucket: "no_bucket r key c \<Longrightarrow> take_read r key c = Create"
  by (auto simp: no_bucket_def take_read_def Let_def split: prod.splits)

lemma take_read_hmget_error:
  "hmget_err c \<noteq> nil \<Longrightarrow> \<not> errors_Is (hmget_err c) RedisNil \<Longrightarrow>
     take_read r key c = Finished (0, 0, 0, False, Wrapf ''HMGet'' (hmget_err c))"
  by (simp add: take_read_def HMGet_def)

lemma take_read_ok:
  assumes "bucket_inv c (prefix r @ key)"
  shows "call_ok r key c (Reading (take_read r key c))"
  using take_trichotomy [OF assms]
proof (elim disjE conjE exE)
  assume nb: "no_bucket r key c"
  then show ?thesis
    using nb by (auto simp: take_read_no_bucket call_ok_def no_bucket_iff)
next
  assume "hmget_err c \<noteq> nil" "\<not> errors_Is (hmget_err c) RedisNil"
  then show ?thesis by (simp add: take_read_hmget_error call_ok_def within_limit_def)
next
  fix l a t
  assume h: "hmget_err c = nil" and b: "bucket_of c (prefix r @ key) = Some (l, a, t)" and le: "a \<le> l"
  have "limit_of c (prefix r @ key) = Some l" using b by (simp add: limit_of_def)
  then show ?thesis
    using h le word_pred_le [of a l]
    by (simp add: take_read_existing [OF h b] call_ok_def within_limit_def)
qed

lemma take_write_other_keys:
  assumes "k \<noteq> prefix r @ key"
  shows "hash_of (snd (take_write r now key p c)) k = hash_of c k"
proof (cases p)
  case (Finished d)
  then show ?thesis by (simp add: take_write_def)
next
  case Create
  then show ?thesis
    using hash_of_hset_other [OF assms, of r "bucket_flds r now" "interval r" c]
    by (simp add: take_write_def newBucket_eq)
next
  case (Decrement l a t)
  then show ?thesis
    using assms by (simp add: take_write_def update_def HSet_direct_def hash_of_def Let_def)
qed

lemma decrement_state:
  "take_write r now key (Decrement l a t) c =
     (if hset_err c \<noteq> nil
      then ((0, 0, 0, True, Wrapf ''redis hmset'' (Wrapf ''redis hset'' (hset_err c))), c)
      else ((l, a, t, True, nil),
            c\<lparr>hashes := (hashes c)(prefix r @ key \<mapsto>
                 (hash_of c (prefix r @ key))(redisActualPointsFieldName \<mapsto> IString (FormatUint a 10)))\<rparr>))"
  by (simp add: take_write_def update_def HSet_direct_def Let_def)

lemma reply_after_decrement:
  "reply (c\<lparr>hashes := (hashes c)(pk \<mapsto>
            (hash_of c pk)(redisActualPointsFieldName \<mapsto> IString s))\<rparr>) pk redisMaxPointsFieldName
     = reply c pk redisMaxPointsFieldName"
  by (simp add: reply_def hash_of_def field_names)

text \<open>A write keeps the invariant of the key and what the other calls in flight rely on.\<close>

lemma take_write_ok:
  assumes inv: "bucket_inv c (prefix r @ key)" and ok: "call_ok r key c (Reading p)"
  shows "bucket_inv (snd (take_write r now key p c)) (prefix r @ key)
       \<and> within_limit (fst (take_write r now key p c))
       \<and> (\<forall>cl. call_ok r key c cl \<longrightarrow> call_ok r key (snd (take_write r now key p c)) cl)"
proof (cases p)
  case (Finished d)
  then show ?thesis using inv ok by (simp add: take_write_def call_ok_def)
next
  case Create
  let ?pk = "prefix r @ key"
  show ?thesis
  proof (cases "exec_err c = nil")
    case False
    then show ?thesis using inv Create by (simp add: take_write_def newBucket_eq within_limit_def)
  next
    case True
    let ?c' = "snd (hset r ?pk (bucket_flds r now) (interval r) c)"
    have w: "take_write r now key p c
               = ((maxPoints r, maxPoints r, word_of_int (now + interval r), True, nil), ?c')"
      using True Create by (simp add: take_write_def newBucket_eq del: of_int_add)
    have b': "bucket_of ?c' ?pk = Some (maxPoints r, maxPoints r, word_of_int (now + interval r))"
      by (rule bucket_of_hset [OF True])
    have lim': "limit_of ?c' ?pk = Some (maxPoints r)" using b' by (simp add: limit_of_def)
    have h': "hmget_err ?c' = hmget_err c" by (rule hmget_err_hset)
    have others: "call_ok r key ?c' cl" if cl: "call_ok r key c cl" for cl
    proof (cases cl)
      case Idle
      then show ?thesis by (simp add: call_ok_def)
    next
      case (Returned d)
      then show ?thesis using cl by (simp add: call_ok_def)
    next
      case (Reading q)
      show ?thesis
      proof (cases q)
        case (Finished d)
        then show ?thesis using cl Reading by (simp add: call_ok_def)
      next
        case Create
        then show ?thesis using Reading lim' by (simp add: call_ok_def)
      next
        case (Decrement l a t)
        with cl Reading have a: "a \<le> l" and h: "hmget_err c = nil" and lim: "limit_of c ?pk = Some l"
          by (simp_all add: call_ok_def)
        from lim obtain a0 t0 where b: "bucket_of c ?pk = Some (l, a0, t0)"
          unfolding limit_of_Some by blast
        have "reply c ?pk redisMaxPointsFieldName \<noteq> INil" by (rule bucket_of_reply [OF b])
        moreover have "\<not> errors_Is (hmget_err c) RedisNil" using h by simp
        ultimately have "limit_of c ?pk = Some (maxPoints r)"
          using ok \<open>p = Create\<close> by (simp add: call_ok_def)
        then have "l = maxPoints r" using lim by simp
        then show ?thesis using Reading Decrement a h h' lim' by (simp add: call_ok_def)
      qed
    qed
    show ?thesis
      using b' others by (simp add: w bucket_inv_def within_limit_def del: of_int_add)
  qed
next
  case (Decrement l a t)
  let ?pk = "prefix r @ key"
  from ok Decrement have a: "a \<le> l" and h: "hmget_err c = nil" and lim: "limit_of c ?pk = Some l"
    by (simp_all add: call_ok_def)
  from lim obtain a0 t0 where b: "bucket_of c ?pk = Some (l, a0, t0)"
    unfolding limit_of_Some by blast
  show ?thesis
  proof (cases "hset_err c = nil")
    case False
    then show ?thesis using inv Decrement by (simp add: decrement_state within_limit_def)
  next
    case True
    let ?c' = "c\<lparr>hashes := (hashes c)(?pk \<mapsto>
                 (hash_of c ?pk)(redisActualPointsFieldName \<mapsto> IString (FormatUint a 10)))\<rparr>"
    have w: "take_write r now key p c = ((l, a, t, True, nil), ?c')"
      using True Decrement by (simp add: decrement_state)
    have b': "bucket_of ?c' ?pk = Some (l, a, t0)" by (rule bucket_of_decrement [OF b])
    have lim': "limit_of ?c' ?pk = limit_of c ?pk" using b b' by (simp add: limit_of_def)
    have rep': "reply ?c' ?pk redisMaxPointsFieldName = reply c ?pk redisMaxPointsFieldName"
      by (rule reply_after_decrement)
    have h': "hmget_err ?c' = hmget_err c" by simp
    have others: "call_ok r key ?c' cl" if cl: "call_ok r key c cl" for cl
      using cl unfolding call_ok_def lim' rep' h' by simp
    show ?thesis
      using b' a others by (simp add: w bucket_inv_def within_limit_def)
  qed
qed


lemma take_write_inv_all:
  assumes "\<forall>k. bucket_inv c k" and "call_ok r key c (Reading p)"
  shows "\<forall>k. bucket_inv (snd (take_write r now key p c)) k"
proof
  fix k
  show "bucket_inv (snd (take_write r now key p c)) k"
  proof (cases "k = prefix r @ key")
    case True
    then show ?thesis using assms take_write_ok [of c r key p now] by simp
  next
    case False
    then show ?thesis
      using assms(1) bucket_inv_cong [OF take_write_other_keys [OF False, of now p c]] by simp
  qed
qed

lemma step_call_ok:
  assumes inv: "\<forall>k. bucket_inv c k" and ok: "call_ok r key c cl"
  shows "(\<forall>k. bucket_inv (snd (step_call r now key cl c)) k)
       \<and> call_ok r key (snd (step_call r now key cl c)) (fst (step_call r now key cl c))
       \<and> (\<forall>x. call_ok r key c x \<longrightarrow> call_ok r key (snd (step_call r now key cl c)) x)"
proof (cases cl)
  case Idle
  then show ?thesis using inv take_read_ok [of c r key] by (simp add: step_call_def)
next
  case (Reading p)
  have i: "bucket_inv c (prefix r @ key)" using inv by simp
  have k: "call_ok r key c (Reading p)" using ok Reading by simp
  note w = take_write_ok [OF i k, of now]
  have "call_ok r key (snd (take_write r now key p c)) (Returned (fst (take_write r now key p c)))"
    using w by (simp add: call_ok_def)
  then show ?thesis
    using Reading w take_write_inv_all [OF inv k, of now]
    by (simp add: step_call_def split_beta)
next
  case (Returned d)
  then show ?thesis using inv ok by (simp add: step_call_def)
qed

lemma list_all_update:
  "list_all P xs \<Longrightarrow> P x \<Longrightarrow> list_all P (xs[i := x])"
  using set_update_subset_insert [of xs i x] by (auto simp: list_all_iff)

lemma run_schedule_ok:
  "\<forall>k. bucket_inv c k \<Longrightarrow> list_all (call_ok r key c) calls \<Longrightarrow>
     (\<forall>k. bucket_inv (snd (run_schedule r now key sched (calls, c))) k)
     \<and> list_all (call_ok r key (snd (run_schedule r now key sched (calls, c))))
          (fst (run_schedule r now key sched (calls, c)))"
proof (induction sched arbitrary: calls c)
  case Nil
  then show ?case by simp
next
  case (Cons i sched)
  show ?case
  proof (cases "i < length calls")
    case False
    then show ?thesis using Cons.IH [OF Cons.prems] by simp
  next
    case True
    let ?st = "step_call r now key (calls ! i) c"
    have oki: "call_ok r key c (calls ! i)"
      using Cons.prems(2) True by (simp add: list_all_length)
    note s = step_call_ok [OF Cons.prems(1) oki, of now]
    have all': "list_all (call_ok r key (snd ?st)) calls"
      using Cons.prems(2) s by (simp add: list_all_iff)
    have upd: "list_all (call_ok r key (snd ?st)) (calls[i := fst ?st])"
      using all' s by (simp add: list_all_update)
    have inv': "\<forall>k. bucket_inv (snd ?st) k" using s by simp
    show ?thesis
      using Cons.IH [OF inv' upd] True by (simp add: split_beta)
  qed
qed

lemma call_ok_returned: "call_ok r key c cl \<Longrightarrow> returned_within_limit cl"
  by (cases cl) (simp_all add: call_ok_def returned_within_limit_def)

lemma call_ok_Idle: "cl = Idle \<Longrightarrow> call_ok r key c cl"
  by (simp add: call_ok_def)

lemma run_schedule_within_limit:
  assumes "\<forall>k. bucket_inv c k" and "list_all (\<lambda>cl. cl = Idle) calls"
  shows "(\<forall>k. bucket_inv (snd (run_schedule r now key sched (calls, c))) k)
       \<and> list_all returned_within_limit (fst (run_schedule r now key sched (calls, c)))"
proof -
  have "list_all (call_ok r key c) calls"
    using assms(2) by (simp add: list_all_iff call_ok_Idle)
  from run_schedule_ok [OF assms(1) this, of now sched]
  show ?thesis by (auto simp: list_all_iff intro: call_ok_returned)
qed

lemma bucket_of_dec_to:
  "bucket_of c pk = Some (l, a, t) \<Longrightarrow> bucket_of (dec_to c pk a') pk = Some (l, a', t)"
  unfolding dec_to_def by (rule bucket_of_decrement)

lemma faults_dec_to:
  "hmget_err (dec_to c pk a) = hmget_err c" "hset_err (dec_to c pk a) = hset_err c"
  "exec_err (dec_to c pk a) = exec_err c" "smembers_err (dec_to c pk a) = smembers_err c"
  by (simp_all add: dec_to_def)

lemma take_write_Decrement:
  "hset_err c = nil \<Longrightarrow>
     take_write r now key (Decrement l a t) c = ((l, a, t, True, nil), dec_to c (prefix r @ key) a)"
  by (simp add: take_write_def update_def HSet_direct_def dec_to_def Let_def)

lemma Take_existing_dec:
  assumes "hmget_err c = nil" and "hset_err c = nil" and "bucket_of c (prefix r @ key) = Some (l, a, t)"
    and "0 < a"
  shows "Take r now key c = ((l, a - 1, t, True, nil), dec_to c (prefix r @ key) (a - 1))"
  using assms by (simp add: Take_existing dec_to_def)

lemma fst_Take_new:
  "no_bucket r key c \<Longrightarrow> exec_err c = nil \<Longrightarrow>
     fst (Take r now key c) = (maxPoints r, maxPoints r, word_of_int (now + interval r), True, nil)"
  by (simp add: Take_take take_no_bucket newBucket_eq del: of_int_add)

lemma Reset_after_second:
  "Reset store10 (dec_to used_client ''rate_limiter_redistore_apikey-1'' 9) = (nil, empty_client)"
  by (simp add: Reset_reset reset_pipeline dec_to_def store10_def used_client_def empty_client_def
        members_of_def restrict_map_def fun_eq_iff)

text \<open>
  Claim C7 says that the remaining count of a key never rises except when a bucket is
  created after the reset time has passed. Two runs show otherwise. Calls one after
  another, \<open>Take\<close>, \<open>Take\<close>, \<open>Reset\<close>, \<open>Take\<close>: the remaining counts returned are 10,
  9 and 10 again, the last at a clock reading before the reset time of the first bucket.
  Calls that overlap, three of them on a bucket with 2 of 10 points left: the first reads
  2, the next two read and write in turn and bring the stored count to 1 and to 0, then
  the first writes its 1: the stored count goes from 0 to 1 and no bucket was created.
\<close>

theorem remaining_rises_counterexample:
  "Take store10 1700000000000000000 ''apikey-1'' empty_client
     = ((10, 10, 1700000001000000000, True, nil), used_client)
   \<and> fst (Take store10 1700000000100000000 ''apikey-1'' used_client)
       = (10, 9, 1700000001000000000, True, nil)
   \<and> Reset store10 (snd (Take store10 1700000000100000000 ''apikey-1'' used_client))
       = (nil, empty_client)
   \<and> fst (Take store10 1700000000200000000 ''apikey-1'' empty_client)
       = (10, 10, 1700000001200000000, True, nil)
   \<and> (1700000000200000000 :: int) < 1700000001000000000
   \<and> bucket_of (bucket_client ''rate_limiter_redistore_apikey-1'' ''10'' ''2'' ''1700000001000000000'')
        ''rate_limiter_redistore_apikey-1'' = Some (10, 2, 1700000001000000000)
   \<and> bucket_of (snd (run_schedule store10 1700000000500000000 ''apikey-1'' [0, 1, 1, 2, 2]
        ([Idle, Idle, Idle],
         bucket_client ''rate_limiter_redistore_apikey-1'' ''10'' ''2'' ''1700000001000000000'')))
        ''rate_limiter_redistore_apikey-1'' = Some (10, 0, 1700000001000000000)
   \<and> bucket_of (snd (run_schedule store10 1700000000500000000 ''apikey-1'' [0, 1, 1, 2, 2, 0]
        ([Idle, Idle, Idle],
         bucket_client ''rate_limiter_redistore_apikey-1'' ''10'' ''2'' ''1700000001000000000'')))
        ''rate_limiter_redistore_apikey-1'' = Some (10, 1, 1700000001000000000)
   \<and> fst (run_schedule store10 1700000000500000000 ''apikey-1'' [0, 1, 1, 2, 2, 0]
        ([Idle, Idle, Idle],
         bucket_client ''rate_limiter_redistore_apikey-1'' ''10'' ''2'' ''1700000001000000000''))
       = [Returned (10, 1, 1700000001000000000, True, nil),
          Returned (10, 1, 1700000001000000000, True, nil),
          Returned (10, 0, 1700000001000000000, True, nil)]"
proof -
  let ?pk = "''rate_limiter_redistore_apikey-1''"
  let ?t = "1700000001000000000 :: uint64"
  have pk: "prefix store10 @ ''apikey-1'' = ?pk" by (simp add: store10_def)
  \<comment> \<open>one call after another, with a reset in between\<close>
  have fu: "hmget_err used_client = nil" "hset_err used_client = nil"
    by (simp_all add: used_client_def empty_client_def)
  have t2: "Take store10 1700000000100000000 ''apikey-1'' used_client
              = ((10, 9, ?t, True, nil), dec_to used_client ?pk 9)"
    using Take_existing_dec [OF fu, of store10 "''apikey-1''" 10 10 ?t 1700000000100000000]
    by (simp add: pk bucket_of_used)
  have nb: "no_bucket store10 ''apikey-1'' empty_client" by (simp add: client_simps)
  have t3: "fst (Take store10 1700000000200000000 ''apikey-1'' empty_client)
              = (10, 10, 1700000001200000000, True, nil)"
    using fst_Take_new [OF nb, of 1700000000200000000] by (simp add: empty_client_def store10_def)
  \<comment> \<open>three calls that overlap\<close>
  let ?c0 = "bucket_client ?pk ''10'' ''2'' ''1700000001000000000''"
  let ?c1 = "dec_to ?c0 ?pk 1"
  let ?c2 = "dec_to ?c1 ?pk 0"
  let ?c3 = "dec_to ?c2 ?pk 1"
  have p2: "ParseUint ''2'' 0 64 = (2, nil)" by (simp add: parse_eval)
  have b0: "bucket_of ?c0 ?pk = Some (10, 2, ?t)"
    by (rule bucket_of_bucket_client [OF parse_10 p2 parse_reset])
  have b1: "bucket_of ?c1 ?pk = Some (10, 1, ?t)" by (rule bucket_of_dec_to [OF b0])
  have b2: "bucket_of ?c2 ?pk = Some (10, 0, ?t)" by (rule bucket_of_dec_to [OF b1])
  have b3: "bucket_of ?c3 ?pk = Some (10, 1, ?t)" by (rule bucket_of_dec_to [OF b2])
  have f: "hmget_err ?c0 = nil" "hset_err ?c0 = nil" by (simp_all add: bucket_client_simps)
  have r0: "take_read store10 ''apikey-1'' ?c0 = Decrement 10 1 ?t"
    using take_read_existing [of ?c0 store10 "''apikey-1''" 10 2 ?t] f b0 by (simp add: pk)
  have r1: "take_read store10 ''apikey-1'' ?c1 = Decrement 10 0 ?t"
    using take_read_existing [of ?c1 store10 "''apikey-1''" 10 1 ?t] f b1
    by (simp add: pk faults_dec_to)
  have w: "take_write store10 1700000000500000000 ''apikey-1'' (Decrement 10 a ?t) c
             = ((10, a, ?t, True, nil), dec_to c ?pk a)" if "hset_err c = nil" for a c
    using take_write_Decrement [OF that, of store10 1700000000500000000 "''apikey-1''" 10 a ?t]
    by (simp add: pk)
  have run5: "run_schedule store10 1700000000500000000 ''apikey-1'' [0, 1, 1, 2, 2] ([Idle, Idle, Idle], ?c0)
      = ([Reading (Decrement 10 1 ?t), Returned (10, 1, ?t, True, nil), Returned (10, 0, ?t, True, nil)], ?c2)"
    by (simp add: step_call_def r0 r1 w f faults_dec_to)
  have run6: "run_schedule store10 1700000000500000000 ''apikey-1'' [0, 1, 1, 2, 2, 0] ([Idle, Idle, Idle], ?c0)
      = ([Returned (10, 1, ?t, True, nil), Returned (10, 1, ?t, True, nil), Returned (10, 0, ?t, True, nil)], ?c3)"
    by (simp add: step_call_def r0 r1 w f faults_dec_to)
  have e2: "fst (Take store10 1700000000100000000 ''apikey-1'' used_client) = (10, 9, ?t, True, nil)"
    by (simp only: t2 fst_conv)
  have e3: "Reset store10 (snd (Take store10 1700000000100000000 ''apikey-1'' used_client))
              = (nil, empty_client)"
    by (simp only: t2 snd_conv Reset_after_second)
  have e5: "(1700000000200000000 :: int) < 1700000001000000000" by simp
  have e7: "bucket_of (snd (run_schedule store10 1700000000500000000 ''apikey-1'' [0, 1, 1, 2, 2]
              ([Idle, Idle, Idle], ?c0))) ?pk = Some (10, 0, ?t)"
    by (simp only: run5 snd_conv b2)
  have e8: "bucket_of (snd (run_schedule store10 1700000000500000000 ''apikey-1'' [0, 1, 1, 2, 2, 0]
              ([Idle, Idle, Idle], ?c0))) ?pk = Some (10, 1, ?t)"
    by (simp only: run6 snd_conv b3)
  have e9: "fst (run_schedule store10 1700000000500000000 ''apikey-1'' [0, 1, 1, 2, 2, 0]
              ([Idle, Idle, Idle], ?c0))
            = [Returned (10, 1, ?t, True, nil), Returned (10, 1, ?t, True, nil),
               Returned (10, 0, ?t, True, nil)]"
    by (simp only: run6 fst_conv)
  show ?thesis
    by (intro conjI) (rule first_take_state e2 e3 t3 e5 b0 e7 e8 e9)+
qed

text \<open>
  Claim C7, amended. Starting from a client in which every key satisfies the bucket
  invariant (a well-formed bucket with \<open>remaining \<le> limit\<close>, or no bucket), after a call
  of \<open>Take\<close>, whatever its outcome, every key satisfies it again, and the decision
  returned has \<open>remaining \<le> limit\<close> (as unsigned numbers, \<open>0 \<le> remaining\<close> always
  holds); the same is true along any sequence of calls and along any schedule of
  overlapping calls. For calls that run one after another: when the call finds the bucket
  \<open>(l, a, t)\<close>, the bucket afterwards is \<open>(l, a', t)\<close> with \<open>a' \<le> a\<close>; the remaining
  count goes back to the limit only through the creation of a bucket, which happens when
  the call finds none, whatever the clock says about the reset time of the previous one;
  the new bucket is full and its reset time is the clock reading plus the interval.
\<close>

theorem Take_keeps_invariant:
  assumes "\<forall>k. bucket_inv c k"
  shows "(\<forall>k. bucket_inv (snd (Take r now key c)) k)
       \<and> within_limit (fst (Take r now key c))
       \<and> (\<not> no_bucket r key c \<and> bucket_of c (prefix r @ key) = Some (l, a, t) \<longrightarrow>
            (\<exists>a'. bucket_of (snd (Take r now key c)) (prefix r @ key) = Some (l, a', t) \<and> a' \<le> a))
       \<and> (no_bucket r key c \<and> exec_err c = nil \<longrightarrow>
            bucket_of (snd (Take r now key c)) (prefix r @ key)
              = Some (maxPoints r, maxPoints r, word_of_int (now + interval r)))
       \<and> (\<forall>k. bucket_inv (snd (take_seq r key nows c)) k)
       \<and> list_all within_limit (fst (take_seq r key nows c))
       \<and> (list_all (\<lambda>cl. cl = Idle) calls \<longrightarrow>
            (\<forall>k. bucket_inv (snd (run_schedule r now key sched (calls, c))) k)
            \<and> list_all returned_within_limit (fst (run_schedule r now key sched (calls, c))))"
proof -
  have inv: "\<forall>k. bucket_inv (snd (Take r now key c)) k"
    using take_inv_all [OF assms] by (simp add: snd_Take)
  have wl: "within_limit (fst (Take r now key c))"
    using assms by (simp add: Take_within_limit)
  have mono: "\<exists>a'. bucket_of (snd (Take r now key c)) (prefix r @ key) = Some (l, a', t) \<and> a' \<le> a"
    if nb: "\<not> no_bucket r key c" and b: "bucket_of c (prefix r @ key) = Some (l, a, t)"
  proof (cases "hmget_err c = nil")
    case True
    then show ?thesis using take_existing_after [OF True b, of now] by (auto simp: snd_Take)
  next
    case False
    then have "\<not> errors_Is (hmget_err c) RedisNil" using nb by (simp add: no_bucket_iff)
    then have "snd (take r now key c) = c" using False by (simp add: take_hmget_error)
    then show ?thesis using b by (simp add: snd_Take)
  qed
  have new: "bucket_of (snd (Take r now key c)) (prefix r @ key)
              = Some (maxPoints r, maxPoints r, word_of_int (now + interval r))"
    if nb: "no_bucket r key c" and e: "exec_err c = nil"
    using bucket_of_hset [OF e, of r "prefix r @ key" now] e
    by (simp add: snd_Take take_no_bucket [OF nb] newBucket_eq del: of_int_add)
  have over: "(\<forall>k. bucket_inv (snd (run_schedule r now key sched (calls, c))) k)
            \<and> list_all returned_within_limit (fst (run_schedule r now key sched (calls, c)))"
    if "list_all (\<lambda>cl. cl = Idle) calls"
    by (rule run_schedule_within_limit [OF assms that])
  show ?thesis
    using inv wl mono new take_seq_inv [OF assms, of r key nows] over by blast
qed

text \<open>
  One call on the client holding a full bucket, one on the client without keys, and two
  overlapping calls on the first.
\<close>

theorem Take_keeps_invariant_witness:
  "(\<forall>k. bucket_inv used_client k)
   \<and> (\<forall>k. bucket_inv (snd (Take store10 1700000000500000000 ''apikey-1'' used_client)) k)
   \<and> within_limit (fst (Take store10 1700000000500000000 ''apikey-1'' used_client))
   \<and> \<not> no_bucket store10 ''apikey-1'' used_client
   \<and> bucket_of used_client (prefix store10 @ ''apikey-1'') = Some (10, 10, 1700000001000000000)
   \<and> (\<exists>a'. bucket_of (snd (Take store10 1700000000500000000 ''apikey-1'' used_client))
               (prefix store10 @ ''apikey-1'') = Some (10, a', 1700000001000000000) \<and> a' \<le> 10)
   \<and> list_all (\<lambda>cl. cl = Idle) [Idle, Idle]
   \<and> (\<forall>k. bucket_inv (snd (run_schedule store10 1700000000500000000 ''apikey-1'' [0, 1, 0, 1]
               ([Idle, Idle], used_client))) k)
   \<and> list_all returned_within_limit
        (fst (run_schedule store10 1700000000500000000 ''apikey-1'' [0, 1, 0, 1]
               ([Idle, Idle], used_client)))
   \<and> (\<forall>k. bucket_inv empty_client k)
   \<and> no_bucket store10 ''apikey-1'' empty_client \<and> exec_err empty_client = nil
   \<and> bucket_of (snd (Take store10 1700000000000000000 ''apikey-1'' empty_client))
        (prefix store10 @ ''apikey-1'') = Some (10, 10, 1700000001000000000)"
proof -
  have i1: "\<forall>k. bucket_inv used_client k" by (simp add: bucket_inv_used)
  have i2: "\<forall>k. bucket_inv empty_client k" by (simp add: bucket_inv_empty)
  have nb1: "\<not> no_bucket store10 ''apikey-1'' used_client"
    by (simp add: no_bucket_iff reply_def used_client_def empty_client_def hash_of_def store10_def
          field_names)
  have b1: "bucket_of used_client (prefix store10 @ ''apikey-1'') = Some (10, 10, 1700000001000000000)"
    by (simp add: store10_def bucket_of_used)
  have idle: "list_all (\<lambda>cl. cl = Idle) [Idle, Idle]" by simp
  have nb2: "no_bucket store10 ''apikey-1'' empty_client"
    by (simp add: client_simps)
  have e2: "exec_err empty_client = nil" by (simp add: empty_client_def)
  note T1 = Take_keeps_invariant [OF i1, where r = store10 and now = 1700000000500000000
      and key = "''apikey-1''" and l = 10 and a = 10 and t = 1700000001000000000 and nows = "[]"
      and calls = "[Idle, Idle]" and sched = "[0, 1, 0, 1]"]
  note T2 = Take_keeps_invariant [OF i2, where r = store10 and now = 1700000000000000000
      and key = "''apikey-1''" and l = 0 and a = 0 and t = 0 and nows = "[]"
      and calls = "[]" and sched = "[]"]
  have r2: "bucket_of (snd (Take store10 1700000000000000000 ''apikey-1'' empty_client))
        (prefix store10 @ ''apikey-1'') = Some (10, 10, 1700000001000000000)"
    using T2 nb2 e2 by (simp add: store10_def)
  show ?thesis
    using i1 i2 nb1 b1 idle nb2 e2 r2 T1 by blast
qed

section \<open>Calls that overlap, calls in sequence\<close>

text \<open>A call that makes its two steps with no other call in between is \<open>take\<close>.\<close>

lemma step_twice_is_take:
  "step_call r now key (fst (step_call r now key Idle c)) (snd (step_call r now key Idle c))
     = (Returned (fst (take r now key c)), snd (take r now key c))"
  by (simp add: step_call_def take_split split: prod.splits)





section \<open>Construction and reset\<close>

text \<open>
  Claim C5. \<open>NewRedisStore\<close> returns a store exactly when the configuration has no tags,
  and that store's only tag is the tag prefix followed by \<open>goratelimit\<close>. With any tag
  configured, the loop assigns to index 0 of a slice of length 0 and the constructor
  panics.
\<close>

theorem NewRedisStore_tags:
  "(Tags cfg = [] \<longrightarrow>
      NewRedisStore cfg =
        Inr \<lparr>tags = [(if TagsPrefix cfg = [] then ''tags:'' else TagsPrefix cfg) @ ''goratelimit''],
             tagPrefix = (if TagsPrefix cfg = [] then ''tags:'' else TagsPrefix cfg),
             prefix = (if Prefix cfg = [] then ''rate_limiter_redistore_'' else Prefix cfg),
             maxPoints = Points cfg, interval = Interval cfg\<rparr>)
   \<and> (Tags cfg \<noteq> [] \<longrightarrow> NewRedisStore cfg = Inl (IndexOutOfRange 0 0))"
proof (cases "Tags cfg")
  case Nil
  then show ?thesis
    by (simp add: NewRedisStore_def Let_def defaultRedisTag_def defaultRedisTagPrefix_def defaultRedisPrefix_def)
next
  case (Cons tag rest)
  then show ?thesis by (simp add: NewRedisStore_def Let_def)
qed

text \<open>A configuration without tags, and one with the tag \<open>api\<close>.\<close>

theorem NewRedisStore_tags_witness:
  "Tags \<lparr>Tags = [], TagsPrefix = [], Prefix = [], Interval = 1000000000, Points = 10\<rparr> = []
   \<and> NewRedisStore \<lparr>Tags = [], TagsPrefix = [], Prefix = [], Interval = 1000000000, Points = 10\<rparr>
       = Inr store10
   \<and> Tags \<lparr>Tags = [''api''], TagsPrefix = [], Prefix = [], Interval = 1000000000, Points = 10\<rparr> \<noteq> []
   \<and> NewRedisStore \<lparr>Tags = [''api''], TagsPrefix = [], Prefix = [], Interval = 1000000000, Points = 10\<rparr>
       = Inl (IndexOutOfRange 0 0)"
  using NewRedisStore_tags [of "\<lparr>Tags = [], TagsPrefix = [], Prefix = [], Interval = 1000000000, Points = 10\<rparr>"]
        NewRedisStore_tags [of "\<lparr>Tags = [''api''], TagsPrefix = [], Prefix = [], Interval = 1000000000, Points = 10\<rparr>"]
  by (simp add: store10_def)

lemma NewRedisStore_has_tag: "NewRedisStore cfg = Inr r \<Longrightarrow> tags r \<noteq> []"
proof (cases "Tags cfg")
  case Nil
  assume "NewRedisStore cfg = Inr r"
  then show ?thesis using Nil by (auto simp: NewRedisStore_def Let_def)
next
  case (Cons tag rest)
  assume "NewRedisStore cfg = Inr r"
  then show ?thesis using Cons by (simp add: NewRedisStore_def Let_def)
qed

lemma Reset_used_client: "Reset store10 used_client = (nil, empty_client)"
  by (simp add: Reset_reset reset_pipeline store10_def used_client_def empty_client_def
        members_of_def restrict_map_def fun_eq_iff)

text \<open>
  Claim C6 says that \<open>Reset\<close> with zero tags configured returns an error and changes
  nothing. \<open>NewRedisStore\<close> gives a configuration without tags the default tag, so the
  store it returns is \<open>store10\<close>, whose \<open>Reset\<close> on the client left by one request
  returns no error and deletes the bucket and the tag set.
\<close>

theorem Reset_default_tag_counterexample:
  "Tags \<lparr>Tags = [], TagsPrefix = [], Prefix = [], Interval = 1000000000, Points = 10\<rparr> = []
   \<and> NewRedisStore \<lparr>Tags = [], TagsPrefix = [], Prefix = [], Interval = 1000000000, Points = 10\<rparr>
       = Inr store10
   \<and> fst (Reset store10 used_client) = nil
   \<and> bucket_of used_client ''rate_limiter_redistore_apikey-1'' = Some (10, 10, 1700000001000000000)
   \<and> hashes (snd (Reset store10 used_client)) ''rate_limiter_redistore_apikey-1'' = None
   \<and> sets used_client ''tags:goratelimit'' = Some [''rate_limiter_redistore_apikey-1'']
   \<and> sets (snd (Reset store10 used_client)) ''tags:goratelimit'' = None"
  by (simp add: Reset_used_client bucket_of_used)
     (simp add: NewRedisStore_def store10_def defaultRedisPrefix_def defaultRedisTagPrefix_def
        defaultRedisTag_def used_client_def empty_client_def)

text \<open>
  Claim C6, amended. \<open>Reset\<close> on a store whose tag list is empty returns the error
  \<open>tags not set\<close> and leaves the client state untouched; no store returned by
  \<open>NewRedisStore\<close> is such a store. With at least one tag in the store (the default tag
  of a configuration without tags included), when \<open>SMembers\<close> and the transaction
  succeed, \<open>Reset\<close> deletes the members of the first tag and every tag key (hash, set and
  expiry alike) and nothing else; when the transaction fails nothing is deleted and the
  error is returned.
\<close>

theorem Reset_batch:
  "(tags r = [] \<longrightarrow> Reset r c = (Wrapf ''reset'' (Errorf ''tags not set''), c))
   \<and> (NewRedisStore cfg = Inr r \<longrightarrow> tags r \<noteq> [])
   \<and> (tags r \<noteq> [] \<and> smembers_err c = nil \<and> exec_err c = nil \<longrightarrow>
        Reset r c =
          (nil, c\<lparr>hashes := hashes c |` (- (set (members_of c (tags r ! 0)) \<union> set (tags r))),
                   sets := sets c |` (- (set (members_of c (tags r ! 0)) \<union> set (tags r))),
                   ttl := ttl c |` (- (set (members_of c (tags r ! 0)) \<union> set (tags r)))\<rparr>))
   \<and> (tags r \<noteq> [] \<and> smembers_err c = nil \<and> exec_err c \<noteq> nil \<longrightarrow>
        Reset r c = (Wrapf ''reset'' (Wrapf ''redis pipeline exec'' (exec_err c)), c))"
proof -
  have "- set ks \<inter> - set ts = - (set ks \<union> set ts)" for ks ts :: "string list"
    by blast
  then show ?thesis
    using NewRedisStore_has_tag [of cfg r]
    by (simp add: Reset_reset reset_pipeline)
qed

text \<open>
  A store with its tag list emptied by hand; the store of the configuration without tags
  on the client left by one request; the same with a failing transaction.
\<close>

theorem Reset_batch_witness:
  "tags (store10\<lparr>tags := []\<rparr>) = []
   \<and> Reset (store10\<lparr>tags := []\<rparr>) used_client = (Wrapf ''reset'' (Errorf ''tags not set''), used_client)
   \<and> NewRedisStore \<lparr>Tags = [], TagsPrefix = [], Prefix = [], Interval = 1000000000, Points = 10\<rparr>
       = Inr store10
   \<and> tags store10 \<noteq> [] \<and> smembers_err used_client = nil \<and> exec_err used_client = nil
   \<and> Reset store10 used_client = (nil, empty_client)
   \<and> smembers_err failing_client = nil \<and> exec_err failing_client \<noteq> nil
   \<and> Reset store10 failing_client
        = (Wrapf ''reset'' (Wrapf ''redis pipeline exec'' (ClientError ''EXECABORT'')), failing_client)"
proof -
  let ?cfg = "\<lparr>Tags = [], TagsPrefix = [], Prefix = [], Interval = 1000000000, Points = 10\<rparr>"
  have n: "NewRedisStore ?cfg = Inr store10"
    by (simp add: NewRedisStore_def store10_def defaultRedisPrefix_def defaultRedisTagPrefix_def
          defaultRedisTag_def)
  have t: "tags store10 \<noteq> []"
    using Reset_batch [where r = store10 and c = used_client and cfg = ?cfg] n by blast
  have a: "Reset (store10\<lparr>tags := []\<rparr>) used_client = (Wrapf ''reset'' (Errorf ''tags not set''), used_client)"
    using Reset_batch [where r = "store10\<lparr>tags := []\<rparr>" and c = used_client and cfg = ?cfg] by simp
  have b: "Reset store10 used_client = (nil, empty_client)"
    using Reset_batch [where r = store10 and c = used_client and cfg = ?cfg]
    by (simp add: store10_def used_client_def empty_client_def members_of_def restrict_map_def fun_eq_iff)
  have c: "Reset store10 failing_client
        = (Wrapf ''reset'' (Wrapf ''redis pipeline exec'' (ClientError ''EXECABORT'')), failing_client)"
    using Reset_batch [where r = store10 and c = failing_client and cfg = ?cfg]
    by (simp add: store10_def failing_client_def used_client_def empty_client_def)
  have f: "smembers_err used_client = nil" "exec_err used_client = nil"
    "smembers_err failing_client = nil" "exec_err failing_client \<noteq> nil"
    by (simp_all add: failing_client_def used_client_def empty_client_def)
  show ?thesis
    by (intro conjI) (simp, rule a, rule n, rule t, rule f, rule f, rule b, rule f, rule f, rule c)
qed

section \<open>The middleware\<close>

lemma middleware_unfold:
  "LimiterMiddleware Format s keyFunc opts next_handler r x =
     (if skips opts then ServeHTTP next_handler r x
      else case keyFunc of
             None \<Rightarrow> x\<lparr>resp := WriteHeader (resp x) StatusInternalServerError\<rparr>
           | Some kf \<Rightarrow>
               if snd (kf r) \<noteq> nil then x\<lparr>resp := WriteHeader (resp x) StatusInternalServerError\<rparr>
               else
                 (case s (fst (kf r)) (store x) of
                    ((limit, remaining, t, ok, err), st) \<Rightarrow>
                      if err \<noteq> nil
                      then x\<lparr>store := st, take_calls := take_calls x @ [fst (kf r)],
                             resp := WriteHeader (resp x) StatusInternalServerError\<rparr>
                      else if \<not> ok
                      then x\<lparr>store := st, take_calls := take_calls x @ [fst (kf r)],
                             resp := WriteHeader
                               (Header_Set
                                 (Header_Set
                                   (Header_Set
                                     (Header_Set (resp x) HeaderRateLimitLimit (FormatUint limit 10))
                                     HeaderRateLimitRemaining (FormatUint remaining 10))
                                   HeaderRateLimitReset (Format (dateFormat (options_of opts)) (sint t)))
                                 HeaderRetryAfter (Format (dateFormat (options_of opts)) (sint t)))
                               StatusTooManyRequests\<rparr>
                      else ServeHTTP next_handler r
                             (x\<lparr>store := st, take_calls := take_calls x @ [fst (kf r)],
                                resp := Header_Set
                                   (Header_Set
                                     (Header_Set (resp x) HeaderRateLimitLimit (FormatUint limit 10))
                                     HeaderRateLimitRemaining (FormatUint remaining 10))
                                   HeaderRateLimitReset (Format (dateFormat (options_of opts)) (sint t))\<rparr>)))"
  by (simp add: LimiterMiddleware_def skips_def options_of_def Let_def
           split: option.splits prod.splits)

lemmas header_names = HeaderRateLimitLimit_def HeaderRateLimitRemaining_def HeaderRateLimitReset_def
  HeaderRetryAfter_def

lemma skips_Nil: "\<not> skips []"
  by (simp add: skips_def options_of_def)

lemma dateFormat_Nil: "dateFormat (options_of []) = defaultDateFormat"
  by (simp add: options_of_def)

text \<open>
  Claim C8. When the middleware reaches the store (the skipper does not skip, the key
  function returns a key) and \<open>Take\<close> returns \<open>(limit, remaining, t, false, nil)\<close>, the
  response carries \<open>X-RateLimit-Limit\<close>, \<open>X-RateLimit-Remaining\<close> and
  \<open>X-RateLimit-Reset\<close>, and \<open>Retry-After\<close> with the same rendered time as the reset
  header; the status written is 429, and the wrapped handler is not called.
\<close>

theorem middleware_rejects:
  assumes "\<not> skips opts" and "kf r = (key, nil)"
    and "s key (store x) = ((limit, remaining, t, False, nil), st)"
  shows "LimiterMiddleware Format s (Some kf) opts next_handler r x =
           x\<lparr>store := st, take_calls := take_calls x @ [key],
             resp := \<lparr>headers = (headers (resp x))
                         (HeaderRateLimitLimit \<mapsto> FormatUint limit 10,
                          HeaderRateLimitRemaining \<mapsto> FormatUint remaining 10,
                          HeaderRateLimitReset \<mapsto> Format (dateFormat (options_of opts)) (sint t),
                          HeaderRetryAfter \<mapsto> Format (dateFormat (options_of opts)) (sint t)),
                       written = written (resp x) @ [StatusTooManyRequests]\<rparr>\<rparr>
       \<and> next_calls (LimiterMiddleware Format s (Some kf) opts next_handler r x) = next_calls x"
  using assms by (simp add: middleware_unfold Header_Set_def WriteHeader_def)

text \<open>The rejecting store of the middleware test: limit 10, nothing left, reset time 0.\<close>

theorem middleware_rejects_witness:
  "\<not> skips [] \<and> const_key () = (''1234'', nil)
   \<and> rejecting_Take ''1234'' (store fresh) = ((10, 0, 0, False, nil), ())
   \<and> headers (resp (LimiterMiddleware plain_Format rejecting_Take (Some const_key) [] ok_handler () fresh))
        = [''X-RateLimit-Limit'' \<mapsto> ''10'', ''X-RateLimit-Remaining'' \<mapsto> ''0'',
           ''X-RateLimit-Reset'' \<mapsto> ''Thu, 01 Jan 1970 00:00:00 UTC'',
           ''Retry-After'' \<mapsto> ''Thu, 01 Jan 1970 00:00:00 UTC'']
   \<and> written (resp (LimiterMiddleware plain_Format rejecting_Take (Some const_key) [] ok_handler () fresh))
        = [429]
   \<and> next_calls (LimiterMiddleware plain_Format rejecting_Take (Some const_key) [] ok_handler () fresh) = 0"
proof -
  have h1: "\<not> skips []" by (rule skips_Nil)
  have h2: "const_key () = (''1234'', nil)" by (simp add: const_key_def)
  have h3: "rejecting_Take ''1234'' (store fresh) = ((10, 0, 0, False, nil), ())"
    by (simp add: rejecting_Take_def)
  have f0: "FormatUint 0 10 = ''0''"
    by (simp add: FormatUint_def fmt_digits_small digit_char_def)
  note T = middleware_rejects [where opts = "[]" and kf = const_key and r = "()" and key = "''1234''"
      and s = rejecting_Take and x = fresh and limit = 10 and remaining = 0 and t = 0 and st = "()"
      and Format = plain_Format and next_handler = ok_handler, OF h1 h2 h3]
  show ?thesis
    using h1 h2 h3 T
    by (simp add: dateFormat_Nil fresh_def header_names fmt_eval f0 plain_Format_def
          StatusTooManyRequests_def)
qed

text \<open>
  Claim C9 says that a nil key function always gives status 500 and no call of the wrapped
  handler. The skipper is tested first: with a skipper that answers true and no key
  function, the request goes to the wrapped handler, which here writes 200.
\<close>

theorem middleware_skip_counterexample:
  "written (resp (LimiterMiddleware plain_Format noop_Take None [WithSkipper (Some always_skip)]
                    ok_handler () fresh)) = [200]
   \<and> written (resp (LimiterMiddleware plain_Format noop_Take None [WithSkipper (Some always_skip)]
                    ok_handler () fresh)) \<noteq> [StatusInternalServerError]
   \<and> next_calls (LimiterMiddleware plain_Format noop_Take None [WithSkipper (Some always_skip)]
                    ok_handler () fresh) = 1"
  by (simp add: LimiterMiddleware_def WithSkipper_def always_skip_def ServeHTTP_def ok_handler_def
        WriteHeader_def fresh_def StatusInternalServerError_def)

text \<open>
  Claim C9, amended. When the skipper is absent or answers false: with a nil key function,
  or a key function that returns an error, the only effect is \<open>WriteHeader(500)\<close>
  (no header set, no call of the store, no call of the wrapped handler); when \<open>Take\<close>
  returns an error, the store was called once and the only other effect is
  \<open>WriteHeader(500)\<close>.
\<close>

theorem middleware_internal_failure:
  assumes "\<not> skips opts"
  shows "(keyFunc = None \<longrightarrow>
            LimiterMiddleware Format s keyFunc opts next_handler r x
              = x\<lparr>resp := (resp x)\<lparr>written := written (resp x) @ [StatusInternalServerError]\<rparr>\<rparr>)
       \<and> (keyFunc = Some kf \<and> snd (kf r) \<noteq> nil \<longrightarrow>
            LimiterMiddleware Format s keyFunc opts next_handler r x
              = x\<lparr>resp := (resp x)\<lparr>written := written (resp x) @ [StatusInternalServerError]\<rparr>\<rparr>)
       \<and> (keyFunc = Some kf \<and> kf r = (key, nil)
            \<and> s key (store x) = ((limit, remaining, t, ok, err), st) \<and> err \<noteq> nil \<longrightarrow>
            LimiterMiddleware Format s keyFunc opts next_handler r x
              = x\<lparr>store := st, take_calls := take_calls x @ [key],
                  resp := (resp x)\<lparr>written := written (resp x) @ [StatusInternalServerError]\<rparr>\<rparr>)"
  using assms by (auto simp: middleware_unfold WriteHeader_def)

text \<open>No key function; a key function that fails; a store that fails.\<close>

theorem middleware_internal_failure_witness:
  "\<not> skips []
   \<and> LimiterMiddleware plain_Format rejecting_Take None [] ok_handler () fresh
       = fresh\<lparr>resp := \<lparr>headers = Map.empty, written = [500]\<rparr>\<rparr>
   \<and> snd (failing_key ()) \<noteq> nil
   \<and> LimiterMiddleware plain_Format rejecting_Take (Some failing_key) [] ok_handler () fresh
       = fresh\<lparr>resp := \<lparr>headers = Map.empty, written = [500]\<rparr>\<rparr>
   \<and> const_key () = (''1234'', nil)
   \<and> failing_Take ''1234'' (store fresh)
       = ((0, 0, 0, False, Wrapf ''take'' (Wrapf ''HMGet'' (ClientError ''connection refused''))), ())
   \<and> LimiterMiddleware plain_Format failing_Take (Some const_key) [] ok_handler () fresh
       = fresh\<lparr>take_calls := [''1234''], resp := \<lparr>headers = Map.empty, written = [500]\<rparr>\<rparr>"
proof -
  have h1: "\<not> skips []" by (rule skips_Nil)
  have a: "LimiterMiddleware plain_Format rejecting_Take None [] ok_handler () fresh
       = fresh\<lparr>resp := \<lparr>headers = Map.empty, written = [500]\<rparr>\<rparr>"
    using middleware_internal_failure [OF h1, of None plain_Format rejecting_Take ok_handler "()" fresh]
    by (simp add: fresh_def StatusInternalServerError_def)
  have b: "LimiterMiddleware plain_Format rejecting_Take (Some failing_key) [] ok_handler () fresh
       = fresh\<lparr>resp := \<lparr>headers = Map.empty, written = [500]\<rparr>\<rparr>"
    using middleware_internal_failure [OF h1, of "Some failing_key" plain_Format rejecting_Take
        ok_handler "()" fresh failing_key]
    by (simp add: fresh_def StatusInternalServerError_def failing_key_def)
  have c: "LimiterMiddleware plain_Format failing_Take (Some const_key) [] ok_handler () fresh
       = fresh\<lparr>take_calls := [''1234''], resp := \<lparr>headers = Map.empty, written = [500]\<rparr>\<rparr>"
    using middleware_internal_failure [OF h1, of "Some const_key" plain_Format failing_Take
        ok_handler "()" fresh const_key "''1234''" 0 0 0 False
        "Wrapf ''take'' (Wrapf ''HMGet'' (ClientError ''connection refused''))" "()"]
    by (simp add: fresh_def StatusInternalServerError_def const_key_def failing_Take_def)
  show ?thesis
    using h1 a b c by (simp add: failing_key_def const_key_def failing_Take_def)
qed

end
